theory Spec2Isabelle
  imports Main
begin

section \<open>Data model (src/types.ts)\<close>

text \<open>
  The enums \<open>Role\<close> and \<open>NodeType\<close> of \<open>types.ts\<close>. The constructors of \<open>Role\<close> carry a
  prefix because \<open>SYSTEM\<close> and \<open>TOOL\<close> are members of both enums.
\<close>

datatype Role = Role_USER | Role_MODEL | Role_SYSTEM | Role_TOOL

datatype NodeType = SYSTEM | AGENT | TOOL | MEMORY | ROUTER

text \<open>
  \<open>AetherNode\<close>. An optional field of the interface is an \<open>option\<close>, \<open>None\<close> standing for
  \<open>undefined\<close>. The field \<open>type\<close> is an option as well: \<open>manage_node\<close> stores
  \<open>args.type as NodeType\<close> unchecked, so a node built by the loop may carry no member of
  the enum. \<open>toolType\<close> and \<open>language\<close> are kept as the strings the code compares them
  with. The fields \<open>collapsed\<close>, \<open>apiBase\<close>, \<open>apiKey\<close>, \<open>temperature\<close> and \<open>apiEndpoint\<close> are
  read by no function modelled here and are left out.
\<close>

record AetherNode =
  node_id :: string
  node_type :: "NodeType option"
  name :: string
  parentId :: "string option"
  isActive :: "bool option"
  provider :: "string option"
  model :: "string option"
  systemInstruction :: "string option"
  toolType :: "string option"
  code :: "string option"
  language :: "string option"
  memoryContent :: "string option"

text \<open>
  \<open>nodes: Record<string, AetherNode>\<close> is a JavaScript object, and the store is the
  association list of its own properties in the order \<open>Object.values\<close> lists them: the keys
  that are array indices first, in ascending numeric order, then the other keys in
  insertion order. An array index is the decimal numeral, without sign or leading zero, of
  a number below \<open>2^32 - 1\<close>; an identifier drawn by \<open>uuid\<close> is one when its nine characters
  happen to be digits. Assigning to a present key keeps its place; assigning to a new key
  puts an array index before the first key that is no array index or a greater one, and
  appends any other key; \<open>delete\<close> removes the entry.
\<close>

type_synonym NodeMap = "(string \<times> AetherNode) list"

record ProjectState =
  rootNodeId :: string
  nodes :: NodeMap
  selectedNodeId :: string

definition isDigit :: "char \<Rightarrow> bool" where
  "isDigit c = (48 \<le> (of_char c :: nat) \<and> (of_char c :: nat) \<le> 57)"

definition indexValue :: "string \<Rightarrow> nat" where
  "indexValue k = foldl (\<lambda>n c. 10 * n + ((of_char c :: nat) - 48)) 0 k"

definition isArrayIndex :: "string \<Rightarrow> bool" where
  "isArrayIndex k =
     (k \<noteq> [] \<and> list_all isDigit k \<and> (length k = 1 \<or> hd k \<noteq> CHR ''0'') \<and>
      indexValue k < 4294967295)"

definition listedBefore :: "string \<Rightarrow> string \<Rightarrow> bool" where
  "listedBefore k k' =
     (isArrayIndex k \<and> (if isArrayIndex k' then indexValue k < indexValue k' else True))"

definition get_node :: "NodeMap \<Rightarrow> string \<Rightarrow> AetherNode option" where
  "get_node ns k = map_of ns k"

fun set_node :: "NodeMap \<Rightarrow> string \<Rightarrow> AetherNode \<Rightarrow> NodeMap" where
  "set_node [] k v = [(k, v)]"
| "set_node ((k', v') # ns) k v =
     (if k' = k then (k, v) # ns
      else if listedBefore k k' then (k, v) # (k', v') # ns
      else (k', v') # set_node ns k v)"

text \<open>
  \<open>nodes[key]\<close> also finds what the object inherits: the members of \<open>Object.prototype\<close>,
  all of them truthy. The existence checks of the loop, \<open>if (!nextProject.nodes[key])\<close>,
  therefore pass for these keys whether or not the store holds them. \<open>has_property\<close> is that
  check. The other readers of the store are modelled on its own keys.
\<close>

definition prototype_keys :: "string list" where
  "prototype_keys =
     [''constructor'', ''__defineGetter__'', ''__defineSetter__'', ''hasOwnProperty'',
      ''__lookupGetter__'', ''__lookupSetter__'', ''isPrototypeOf'', ''propertyIsEnumerable'',
      ''toString'', ''valueOf'', ''__proto__'', ''toLocaleString'']"

definition has_property :: "NodeMap \<Rightarrow> string \<Rightarrow> bool" where
  "has_property ns k =
     (case get_node ns k of Some n \<Rightarrow> True | None \<Rightarrow> k \<in> set prototype_keys)"

definition delete_node :: "NodeMap \<Rightarrow> string \<Rightarrow> NodeMap" where
  "delete_node ns k = filter (\<lambda>e. fst e \<noteq> k) ns"

definition values_of :: "NodeMap \<Rightarrow> AetherNode list" where
  "values_of ns = map snd ns"

text \<open>JavaScript truthiness of an optional string, and \<open>a || b\<close> on such values.\<close>

definition truthy :: "string option \<Rightarrow> bool" where
  "truthy a = (case a of None \<Rightarrow> False | Some s \<Rightarrow> s \<noteq> [])"

definition or_else :: "string option \<Rightarrow> string option \<Rightarrow> string option" where
  "or_else a b = (if truthy a then a else b)"

text \<open>A value interpolated into a template literal: \<open>undefined\<close> prints as its name.\<close>

definition show_str :: "string option \<Rightarrow> string" where
  "show_str a = (case a of None \<Rightarrow> ''undefined'' | Some s \<Rightarrow> s)"

definition show_type :: "NodeType option \<Rightarrow> string" where
  "show_type t = (case t of None \<Rightarrow> ''undefined'' | Some SYSTEM \<Rightarrow> ''SYSTEM''
     | Some AGENT \<Rightarrow> ''AGENT'' | Some TOOL \<Rightarrow> ''TOOL'' | Some MEMORY \<Rightarrow> ''MEMORY''
     | Some ROUTER \<Rightarrow> ''ROUTER'')"

definition apos :: string where
  "apos = [CHR 0x27]"

definition dquote :: string where
  "dquote = [CHR 0x22]"

definition newline :: string where
  "newline = [CHR 0x0A]"

text \<open>\<open>String.prototype.trim\<close>, on the white space of the ASCII range.\<close>

definition is_ws :: "char \<Rightarrow> bool" where
  "is_ws c = (c = CHR 0x20 \<or> c = CHR 0x09 \<or> c = CHR 0x0A \<or> c = CHR 0x0B \<or> c = CHR 0x0C \<or>
              c = CHR 0x0D)"

definition trim :: "string \<Rightarrow> string" where
  "trim s = rev (dropWhile is_ws (rev (dropWhile is_ws s)))"

text \<open>
  Tool calls and messages. \<open>call.args\<close> has type \<open>any\<close>: it is \<open>null\<close> or \<open>undefined\<close>
  (\<open>Inl\<close>; the universal driver emits \<open>args: null\<close> for the argument text \<open>null\<close>, and the
  \<open>args\<close> of a function call of the Google driver is optional), or the
  structured-argument object of the two administrative schemas, every property optional
  (\<open>Inr\<close>). The name of a call is optional because the universal driver emits \<open>tc.name\<close> as
  it was accumulated, which may be \<open>undefined\<close>. Of \<open>Message\<close> the fields \<open>id\<close>, \<open>timestamp\<close>
  (both read from the clock), \<open>thinking\<close> and \<open>groundingMetadata\<close> are left out.
\<close>

record ToolArgs =
  a_action :: "string option"
  a_nodeId :: "string option"
  a_parentId :: "string option"
  a_type :: "NodeType option"
  a_name :: "string option"
  a_content :: "string option"
  a_code :: "string option"
  a_language :: "string option"
  a_toolType :: "string option"
  a_reason :: "string option"
  a_payload :: "string option"

datatype Nullish = Null | Undefined

record ToolCall =
  call_name :: "string option"
  call_args :: "Nullish + ToolArgs"

record ToolResponse =
  tr_name :: "string option"
  tr_content :: string

record Message =
  role :: Role
  content :: string
  toolCalls :: "ToolCall list option"
  toolResponse :: "ToolResponse option"

section \<open>Simulation manager (src/App.tsx, lines 150-152 and 285-329)\<close>

text \<open>
  The component state the simulation manager and the loop write: \<open>project\<close> (the live
  node store), \<open>isSimulating\<close>, \<open>simulatedProject\<close> (the fork, \<open>null\<close> when there is none),
  \<open>activeContextIds\<close> and \<open>isLoading\<close> (line 270: a turn is in flight).

  \<open>App\<close> is a function component: \<open>project\<close>, \<open>isSimulating\<close>, \<open>simulatedProject\<close>,
  \<open>activeContextIds\<close> and \<open>isLoading\<close> are \<open>const\<close> bindings of one render, and every handler
  defined in that render reads those bindings, whatever the setters have been given
  since. A handler therefore takes two states: \<open>render\<close>, the values bound in the render
  that created it, and the state its setters are updating. A handler started from the
  interface right after a render has both equal.
\<close>

record AppState =
  project :: ProjectState
  isSimulating :: bool
  simulatedProject :: "ProjectState option"
  activeContextIds :: "string list"
  isLoading :: bool

text \<open>
  \<open>JSON.parse(JSON.stringify(p))\<close>: a structurally equal value sharing nothing with \<open>p\<close>.
  Values of HOL are immutable, so the copy is the value itself.
\<close>

definition deep_copy :: "ProjectState \<Rightarrow> ProjectState" where
  "deep_copy p = p"

definition activeProject :: "AppState \<Rightarrow> ProjectState" where
  "activeProject render =
     (case simulatedProject render of
        Some sim \<Rightarrow> if isSimulating render then sim else project render
      | None \<Rightarrow> project render)"

definition setActiveProject :: "AppState \<Rightarrow> ProjectState \<Rightarrow> AppState \<Rightarrow> AppState" where
  "setActiveProject render newValue st =
     (if isSimulating render then st\<lparr>simulatedProject := Some newValue\<rparr>
      else st\<lparr>project := newValue\<rparr>)"

definition startSimulation :: "AppState \<Rightarrow> AppState \<Rightarrow> AppState" where
  "startSimulation render st =
     st\<lparr>simulatedProject := Some (deep_copy (project render)), isSimulating := True\<rparr>"

definition commitSimulation :: "AppState \<Rightarrow> AppState \<Rightarrow> AppState" where
  "commitSimulation render st =
     (case simulatedProject render of
        Some sim \<Rightarrow> st\<lparr>project := sim, isSimulating := False, simulatedProject := None\<rparr>
      | None \<Rightarrow> st)"

definition abortSimulation :: "AppState \<Rightarrow> AppState" where
  "abortSimulation st = st\<lparr>isSimulating := False, simulatedProject := None\<rparr>"

section \<open>Orchestration loop (src/App.tsx, lines 450-651)\<close>

text \<open>
  What the handler takes from outside the program: \<open>uuid\<close> (the \<open>n\<close>-th identifier the
  random source hands out), the desktop bridge \<open>window.electron.runScript\<close> (absent in the
  browser), the \<open>AsyncFunction\<close> constructor applied to a tool's source and run on the
  call, and the message of the engine's \<open>TypeError\<close> for reading a named property of
  \<open>null\<close> or of \<open>undefined\<close>. Running code either returns its text (\<open>Inr\<close>) or throws a
  value (\<open>Inl\<close>): \<open>null\<close> or \<open>undefined\<close>, or a value whose \<open>message\<close> property reads as
  given (\<open>None\<close> for \<open>undefined\<close>, as for a thrown string).
\<close>

datatype JsThrown = ThrownNullish Nullish | ThrownValue "string option"

datatype Thrown = TypeError string

record World =
  uuid :: "nat \<Rightarrow> string"
  electron :: "(string \<Rightarrow> JsThrown + string) option"
  asyncFunction :: "string \<Rightarrow> ToolCall \<Rightarrow> JsThrown + string"
  typeErrorMessage :: "Nullish \<Rightarrow> string \<Rightarrow> string"

text \<open>
  The local variables of the \<open>onToolCall\<close> callback, together with the component state its
  setters have produced (\<open>app\<close>), the number of identifiers drawn so far (\<open>drawn\<close>), and the
  exception that has left the callback, if one has (\<open>escaped\<close>). The callback is an
  \<open>async\<close> function which the drivers call without awaiting it (services/aiEngine.ts,
  lines 325 and 461 of src/components/ConfigPanel.tsx): an exception that leaves it
  rejects a promise nobody handles, so neither \<open>onError\<close> nor \<open>onComplete\<close> runs and the
  turn ends where it stands.
\<close>

record Turn =
  nextProject :: ProjectState
  nextStack :: "string list"
  modified :: bool
  triggeredSimulationChange :: bool
  newHistory :: "Message list"
  app :: AppState
  drawn :: nat
  escaped :: "Thrown option"

text \<open>
  \<open>name.replace(/[^a-zA-Z0-9_]/g, '_')\<close>, the expression of \<open>sanitizeName\<close> in the context
  assembler, written out again in the loop's tool lookup.
\<close>

definition isWordChar :: "char \<Rightarrow> bool" where
  "isWordChar c =
     (let n = (of_char c :: nat)
      in (97 \<le> n \<and> n \<le> 122) \<or> (65 \<le> n \<and> n \<le> 90) \<or> (48 \<le> n \<and> n \<le> 57) \<or> n = 95)"

definition sanitizeName :: "string \<Rightarrow> string" where
  "sanitizeName nm = map (\<lambda>c. if isWordChar c then c else CHR ''_'') nm"

text \<open>
  The \<open>manage_simulation\<close> branch (lines 490-512). It has no \<open>try\<close>: when \<open>call.args\<close> is
  \<open>null\<close> or \<open>undefined\<close>, reading \<open>args.action\<close> throws and the exception leaves the loop
  (\<open>Inl\<close>).
\<close>

definition manage_simulation ::
  "AppState \<Rightarrow> World \<Rightarrow> Nullish + ToolArgs \<Rightarrow> Turn \<Rightarrow> Thrown + Turn \<times> string" where
  "manage_simulation render w args t =
     (case args of
        Inl v \<Rightarrow> Inl (TypeError (typeErrorMessage w v ''action''))
      | Inr args \<Rightarrow>
          if a_action args = Some ''start'' then
            Inr (t\<lparr>app := startSimulation render (app t),
                    triggeredSimulationChange := True,
                    nextProject := deep_copy (nextProject t)\<rparr>,
                 ''Simulation Runtime Started. You are now operating in a sandboxed copy.'')
          else if a_action args = Some ''commit'' then
            Inr (t\<lparr>app := commitSimulation render (app t), triggeredSimulationChange := True\<rparr>,
                 ''Simulation Committed to Live.'')
          else if a_action args = Some ''abort'' then
            Inr (t\<lparr>app := abortSimulation (app t), triggeredSimulationChange := True\<rparr>,
                 ''Simulation Aborted.'')
          else Inr (t, ''Action failed''))"

text \<open>
  The \<open>manage_node\<close> branch (lines 514-578). Every read of \<open>args\<close> and every \<open>throw\<close> stands
  inside the \<open>try\<close> and before the first write of its branch, and is caught by the \<open>catch\<close>
  of the same branch, which sets the result to \<open>Error: \<close> followed by the message of the
  error (an \<open>Error\<close> object in every case); so a throw is the branch returning that text
  with the turn unchanged (but for the identifier \<open>create\<close> has drawn already).
\<close>

definition generated_code :: "ToolArgs \<Rightarrow> string" where
  "generated_code args =
     ''// AI Generated Tool Logic'' @ newline @
     ''print('' @ dquote @ ''Tool '' @ show_str (or_else (a_name args) (Some ''Script'')) @
     '' executing...'' @ dquote @ '');'' @ newline @
     ''return '' @ dquote @ ''Tool logic executed successfully.'' @ dquote @ '';''"

definition manage_node_create :: "World \<Rightarrow> ToolArgs \<Rightarrow> Turn \<Rightarrow> Turn \<times> string" where
  "manage_node_create w args t =
     (let newId = uuid w (drawn t);
          t1 = t\<lparr>drawn := Suc (drawn t)\<rparr>;
          parent = (if truthy (a_parentId args) then the (a_parentId args)
                    else rootNodeId (nextProject t))
      in if \<not> has_property (nodes (nextProject t)) parent
         then (t1, ''Error: Parent '' @ parent @ '' not found'')
         else
           (let newNode = \<lparr>
                  node_id = newId,
                  node_type = a_type args,
                  name = the (or_else (a_name args) (Some ''AI_Generated_Node'')),
                  parentId = Some parent,
                  isActive = Some True,
                  provider = Some ''google'',
                  model = Some ''gemini-2.5-flash'',
                  systemInstruction = a_content args,
                  toolType = (if a_type args = Some TOOL then Some ''function'' else None),
                  code = or_else (a_code args)
                           (if a_type args = Some TOOL then Some (generated_code args) else None),
                  language = or_else (a_language args) (Some ''javascript''),
                  memoryContent = a_content args\<rparr>
            in (t1\<lparr>nextProject := (nextProject t)
                       \<lparr>nodes := set_node (nodes (nextProject t)) newId newNode\<rparr>,
                    nextStack := nextStack t @ [newId],
                    modified := True\<rparr>,
                ''Success. Node created with ID: '' @ newId)))"

text \<open>
  \<open>update\<close> of an identifier the store only inherits reads the inherited member as the
  node. Its spread has no property; its \<open>name\<close> is the name of the function (\<open>Object\<close> for
  \<open>constructor\<close>) and every other field read from it is \<open>undefined\<close>. The object stored has
  no \<open>id\<close>: the record holds the text \<open>undefined\<close> there, which is what that object yields
  wherever its \<open>id\<close> is printed or used as a key. Assigning to \<open>__proto__\<close> replaces the
  prototype of the object and adds no key to it; what the store inherits from the new
  prototype until it is next copied is not modelled.
\<close>

definition inherited_node :: "string \<Rightarrow> ToolArgs \<Rightarrow> AetherNode" where
  "inherited_node nodeId args =
     \<lparr>node_id = show_str None,
      node_type = None,
      name = (if truthy (a_name args) then the (a_name args)
              else if nodeId = ''constructor'' then ''Object'' else nodeId),
      parentId = or_else (a_parentId args) None,
      isActive = None,
      provider = None,
      model = None,
      systemInstruction = a_content args,
      toolType = or_else (a_toolType args) None,
      code = or_else (a_code args) None,
      language = None,
      memoryContent = a_content args\<rparr>"

definition manage_node_update :: "ToolArgs \<Rightarrow> Turn \<Rightarrow> Turn \<times> string" where
  "manage_node_update args t =
     (let nodeId = show_str (a_nodeId args)
      in case get_node (nodes (nextProject t)) nodeId of
           None \<Rightarrow>
             if nodeId \<in> set prototype_keys then
               (t\<lparr>nextProject := (nextProject t)
                     \<lparr>nodes := (if nodeId = ''__proto__'' then nodes (nextProject t)
                                 else set_node (nodes (nextProject t)) nodeId
                                        (inherited_node nodeId args))\<rparr>,
                  modified := True\<rparr>,
                ''Success. Node '' @ nodeId @ '' updated.'')
             else (t, ''Error: Node '' @ nodeId @ '' not found'')
         | Some node \<Rightarrow>
             (let node' = node\<lparr>
                    name := (if truthy (a_name args) then the (a_name args) else name node),
                    systemInstruction :=
                      (if a_content args \<noteq> None then a_content args else systemInstruction node),
                    memoryContent :=
                      (if a_content args \<noteq> None then a_content args else memoryContent node),
                    code := or_else (a_code args) (code node),
                    parentId := or_else (a_parentId args) (parentId node),
                    toolType := or_else (a_toolType args) (toolType node)\<rparr>
              in (t\<lparr>nextProject := (nextProject t)
                        \<lparr>nodes := set_node (nodes (nextProject t)) nodeId node'\<rparr>,
                     modified := True\<rparr>,
                  ''Success. Node '' @ nodeId @ '' updated.'')))"

definition manage_node_delete :: "ToolArgs \<Rightarrow> Turn \<Rightarrow> Turn \<times> string" where
  "manage_node_delete args t =
     (let nodeId = show_str (a_nodeId args)
      in if \<not> has_property (nodes (nextProject t)) nodeId
         then (t, ''Error: Node '' @ nodeId @ '' not found'')
         else
           (t\<lparr>nextProject := (nextProject t)
                 \<lparr>nodes := delete_node (nodes (nextProject t)) nodeId\<rparr>,
              nextStack := filter (\<lambda>i. i \<noteq> nodeId) (nextStack t),
              modified := True\<rparr>,
            ''Success. Node '' @ nodeId @ '' deleted.''))"

definition manage_node :: "World \<Rightarrow> Nullish + ToolArgs \<Rightarrow> Turn \<Rightarrow> Turn \<times> string" where
  "manage_node w args t =
     (case args of
        Inl v \<Rightarrow> (t, ''Error: '' @ typeErrorMessage w v ''action'')
      | Inr args \<Rightarrow>
          if a_action args = Some ''create'' then manage_node_create w args t
          else if a_action args = Some ''update'' then manage_node_update args t
          else if a_action args = Some ''delete'' then manage_node_delete args t
          else (t, ''Action failed''))"

text \<open>
  The runtime executor (lines 580-615). \<open>Object.values(nextProject.nodes).find(...)\<close> takes the
  first node, in store order, whose sanitized name is the name of the call; the predicate
  reads no other field of the node. Whatever the run throws is caught (lines 606-609), and
  the handler reads \<open>e.message\<close> for the result: for a thrown \<open>null\<close> or \<open>undefined\<close> that read
  throws in turn, inside the \<open>catch\<close>, and leaves the loop.
\<close>

definition findTarget :: "ProjectState \<Rightarrow> string option \<Rightarrow> AetherNode option" where
  "findTarget p toolName =
     find (\<lambda>n. Some (sanitizeName (name n)) = toolName) (values_of (nodes p))"

definition runtimeCatch :: "World \<Rightarrow> JsThrown \<Rightarrow> Thrown + string" where
  "runtimeCatch w e =
     (case e of
        ThrownNullish v \<Rightarrow> Inl (TypeError (typeErrorMessage w v ''message''))
      | ThrownValue msg \<Rightarrow> Inr (''Runtime Exception: '' @ show_str msg))"

definition runTarget :: "World \<Rightarrow> ToolCall \<Rightarrow> AetherNode \<Rightarrow> Thrown + string" where
  "runTarget w call targetNode =
     (if language targetNode = Some ''python'' then
        (case electron w of
           Some runScript \<Rightarrow>
             (case runScript (show_str (or_else (code targetNode) (Some []))) of
                Inr res \<Rightarrow> Inr res
              | Inl e \<Rightarrow> runtimeCatch w e)
         | None \<Rightarrow>
             runtimeCatch w
               (ThrownValue (Some ''Python execution requires Desktop Runtime (Electron).'')))
      else
        (case asyncFunction w
                (show_str (or_else (code targetNode)
                   (Some (''return '' @ dquote @ ''No code defined'' @ dquote @ '';''))))
                call of
           Inr res \<Rightarrow> Inr res
         | Inl e \<Rightarrow> runtimeCatch w e))"

definition runtime_executor :: "World \<Rightarrow> ToolCall \<Rightarrow> Turn \<Rightarrow> Thrown + Turn \<times> string" where
  "runtime_executor w call t =
     (case findTarget (nextProject t) (call_name call) of
        Some targetNode \<Rightarrow>
          (case runTarget w call targetNode of Inl e \<Rightarrow> Inl e | Inr result \<Rightarrow> Inr (t, result))
      | None \<Rightarrow>
          Inr (t, ''[System] Error: Tool definition '' @ apos @ show_str (call_name call) @ apos @
                  '' not found in active registry.''))"

text \<open>
  The body of \<open>for (const call of toolCalls)\<close> and the loop (lines 486-620). A call whose
  branch returns has its result pushed to the history; an exception that leaves the branch
  leaves the loop and the callback: the turn is as it stood before the call, nothing is
  pushed, and the calls after it are not run.
\<close>

definition toolResponseMsg :: "ToolCall \<Rightarrow> string \<Rightarrow> Message" where
  "toolResponseMsg call result =
     \<lparr>role = Role_TOOL, content = ''done'', toolCalls = None,
      toolResponse = Some \<lparr>tr_name = call_name call, tr_content = result\<rparr>\<rparr>"

definition dispatchCall ::
  "AppState \<Rightarrow> World \<Rightarrow> ToolCall \<Rightarrow> Turn \<Rightarrow> Thrown + Turn \<times> string" where
  "dispatchCall render w call t =
     (if call_name call = Some ''manage_simulation''
      then manage_simulation render w (call_args call) t
      else if call_name call = Some ''manage_node'' then Inr (manage_node w (call_args call) t)
      else runtime_executor w call t)"

definition processCall :: "AppState \<Rightarrow> World \<Rightarrow> ToolCall \<Rightarrow> Turn \<Rightarrow> Turn" where
  "processCall render w call t =
     (case dispatchCall render w call t of
        Inl e \<Rightarrow> t\<lparr>escaped := Some e\<rparr>
      | Inr r \<Rightarrow> (fst r)\<lparr>newHistory := newHistory (fst r) @ [toolResponseMsg call (snd r)]\<rparr>)"

fun processCalls :: "AppState \<Rightarrow> World \<Rightarrow> ToolCall list \<Rightarrow> Turn \<Rightarrow> Turn" where
  "processCalls render w [] t = t"
| "processCalls render w (call # calls) t =
     (let t' = processCall render w call t
      in if escaped t' = None then processCalls render w calls t' else t')"

text \<open>
  The \<open>onToolCall\<close> callback up to its recursive call (lines 475-625). It works on copies
  of the store and of the stack it was given (\<open>{ ...runtimeProject, nodes: { ... } }\<close> and
  \<open>[...stack]\<close>, in HOL the values themselves): the model message is appended to the
  history, the calls are run in order, and the result is written back through
  \<open>setActiveProject\<close> and \<open>setActiveContextIds\<close> when a node changed and no simulation
  call was in the batch. When an exception has left the loop, the write-back is not
  reached.
\<close>

definition modelMsg :: "string \<Rightarrow> ToolCall list \<Rightarrow> Message" where
  "modelMsg accumulatedText calls =
     \<lparr>role = Role_MODEL,
      content = (if accumulatedText \<noteq> [] then accumulatedText
                 else ''Thought process complete. Executing tool.''),
      toolCalls = Some calls, toolResponse = None\<rparr>"

definition onToolCall ::
  "AppState \<Rightarrow> World \<Rightarrow> Message list \<Rightarrow> string \<Rightarrow> ProjectState \<Rightarrow> string list \<Rightarrow>
   ToolCall list \<Rightarrow> AppState \<Rightarrow> nat \<Rightarrow> Turn" where
  "onToolCall render w currentHistory accumulatedText runtimeProject stack calls st n =
     (let t = processCalls render w calls
                \<lparr>nextProject = runtimeProject, nextStack = stack, modified = False,
                 triggeredSimulationChange = False,
                 newHistory = currentHistory @ [modelMsg accumulatedText calls],
                 app = st, drawn = n, escaped = None\<rparr>
      in if escaped t = None \<and> modified t \<and> \<not> triggeredSimulationChange t
         then t\<lparr>app := (setActiveProject render (nextProject t) (app t))
                          \<lparr>activeContextIds := nextStack t\<rparr>\<rparr>
         else t)"

text \<open>
  \<open>processChatTurn\<close>. The backend is outside the program: its replies are given as the
  list of streaming phases of the turn, each the text it streamed and the batch of tool
  calls it emitted; a phase past the end of the list completes without tool calls, which
  calls \<open>onComplete\<close> (\<open>setIsLoading(false)\<close>) and ends the recursion. A callback that an
  exception has left does not recurse. The result is what the last callback left: the
  history, the store and stack handed from phase to phase, and the component state.
\<close>

fun processChatTurn ::
  "AppState \<Rightarrow> World \<Rightarrow> (string \<times> ToolCall list) list \<Rightarrow> Message list \<Rightarrow> ProjectState \<Rightarrow>
   string list \<Rightarrow> AppState \<Rightarrow> nat \<Rightarrow> Turn" where
  "processChatTurn render w [] currentHistory runtimeProject stack st n =
     \<lparr>nextProject = runtimeProject, nextStack = stack, modified = False,
      triggeredSimulationChange = False, newHistory = currentHistory,
      app = st\<lparr>isLoading := False\<rparr>, drawn = n, escaped = None\<rparr>"
| "processChatTurn render w (phase # phases) currentHistory runtimeProject stack st n =
     (let t = onToolCall render w currentHistory (fst phase) runtimeProject stack (snd phase) st n
      in if escaped t = None
         then processChatTurn render w phases (newHistory t) (nextProject t) (nextStack t) (app t)
                (drawn t)
         else t)"

text \<open>
  \<open>handleSend\<close> (lines 636-651), \<open>img\<close> standing for its parameter \<open>image\<close>. An input
  that is blank with no image, or any input while a turn is in flight, is ignored: the
  handler returns at once, and the result is the turn with nothing done (the session's
  messages, the store and the state of the render). Otherwise it sets \<open>isLoading\<close> and
  starts the turn from the render the user typed in: the history is the session's
  messages and the new user message, the store is \<open>activeProject\<close>, the stack is the focus
  filter or \<open>activeContextIds\<close>.
\<close>

definition userMsg :: "string \<Rightarrow> string option \<Rightarrow> Message" where
  "userMsg input img =
     \<lparr>role = Role_USER,
      content = input @ (if truthy img then newline @ ''(Image attached)'' else []),
      toolCalls = None, toolResponse = None\<rparr>"

definition handleSend ::
  "AppState \<Rightarrow> World \<Rightarrow> (string \<times> ToolCall list) list \<Rightarrow> Message list \<Rightarrow> string \<Rightarrow>
   string option \<Rightarrow> bool \<Rightarrow> Turn" where
  "handleSend render w phases messages input img focusMode =
     (if (trim input = [] \<and> \<not> truthy img) \<or> isLoading render
      then \<lparr>nextProject = activeProject render, nextStack = activeContextIds render,
            modified = False, triggeredSimulationChange = False, newHistory = messages,
            app = render, drawn = 0, escaped = None\<rparr>
      else processChatTurn render w phases (messages @ [userMsg input img])
             (activeProject render)
             (if focusMode then [selectedNodeId (activeProject render)]
              else activeContextIds render)
             (render\<lparr>isLoading := True\<rparr>) 0)"

section \<open>The structural invariant of the node tree\<close>

text \<open>
  \<open>depth_of f ns k\<close> follows the parent links from the node stored under \<open>k\<close> for at most
  \<open>f\<close> nodes and returns the number of links to a node without parent; \<open>None\<close> when a link
  leaves the store or no such node is met.
\<close>

fun depth_of :: "nat \<Rightarrow> NodeMap \<Rightarrow> string \<Rightarrow> nat option" where
  "depth_of 0 ns k = None"
| "depth_of (Suc f) ns k =
     (case get_node ns k of
        None \<Rightarrow> None
      | Some n \<Rightarrow> (case parentId n of None \<Rightarrow> Some 0 | Some p \<Rightarrow> map_option Suc (depth_of f ns p)))"

text \<open>
  What a JavaScript object used as the store gives by itself (one entry per key), and what
  every writer of the store keeps: a node is stored under its own identifier.
\<close>

definition store_ok :: "NodeMap \<Rightarrow> bool" where
  "store_ok ns = (distinct (map fst ns) \<and> list_all (\<lambda>e. node_id (snd e) = fst e) ns)"

text \<open>
  The invariant of the data model: exactly one node has a null parent, and it is the root;
  from every node the parent links lead through nodes of the store to a node without
  parent within as many steps as the store has nodes, so every parent resolves and no
  node is its own ancestor.
\<close>

definition all_depths :: "NodeMap \<Rightarrow> bool" where
  "all_depths ns = list_all (\<lambda>n. depth_of (length ns) ns (node_id n) \<noteq> None) (values_of ns)"

definition tree_invariant :: "ProjectState \<Rightarrow> bool" where
  "tree_invariant p =
     (map node_id (filter (\<lambda>n. parentId n = None) (values_of (nodes p))) = [rootNodeId p] \<and>
      all_depths (nodes p))"

text \<open>\<open>up j ns k\<close> is the \<open>j\<close>-th ancestor of \<open>k\<close> along the parent links.\<close>

fun up :: "nat \<Rightarrow> NodeMap \<Rightarrow> string \<Rightarrow> string option" where
  "up 0 ns k = Some k"
| "up (Suc j) ns k =
     (case get_node ns k of
        None \<Rightarrow> None
      | Some n \<Rightarrow> (case parentId n of None \<Rightarrow> None | Some p \<Rightarrow> up j ns p))"

text \<open>
  The inspector's parent selector (src/unnamed/part_003, \<open>NodeInspector\<close>, lines 56-62 and
  79-85): \<open>getPotentialParents\<close> lists the options offered for \<open>localNode\<close>; choosing one and
  saving writes the node back with that parent. An identifier that is not offered cannot
  be chosen.
\<close>

definition getPotentialParents :: "ProjectState \<Rightarrow> AetherNode \<Rightarrow> AetherNode list" where
  "getPotentialParents p localNode =
     filter (\<lambda>n. (node_type n = Some AGENT \<or> node_type n = Some ROUTER \<or>
                   node_type n = Some TOOL \<or> node_id n = rootNodeId p) \<and>
                  node_id n \<noteq> node_id localNode \<and>
                  parentId n \<noteq> Some (node_id localNode))
       (values_of (nodes p))"

definition inspector_set_parent :: "ProjectState \<Rightarrow> AetherNode \<Rightarrow> string \<Rightarrow> ProjectState option" where
  "inspector_set_parent p localNode choice =
     (if choice \<in> set (map node_id (getPotentialParents p localNode))
      then Some (p\<lparr>nodes := set_node (nodes p) (node_id localNode)
                              (localNode\<lparr>parentId := Some choice\<rparr>)\<rparr>)
      else None)"

text \<open>Rewriting the type of every node of a store, all else unchanged.\<close>

definition retype :: "(AetherNode \<Rightarrow> NodeType option) \<Rightarrow> ProjectState \<Rightarrow> ProjectState" where
  "retype f p = p\<lparr>nodes := map (\<lambda>e. (fst e, (snd e)\<lparr>node_type := f (snd e)\<rparr>)) (nodes p)\<rparr>"

section \<open>Context assembler (services/aiEngine.ts, after the separator in src/components/ConfigPanel.tsx, lines 155-272)\<close>

text \<open>
  An entry of the tool catalog is either an object with a list of function declarations or
  the native search capability \<open>{ googleSearch: {} }\<close>. Of a declaration's parameter schema
  the property names are kept.
\<close>

record FunctionDeclaration =
  fd_name :: string
  fd_description :: string
  fd_parameters :: "string list"

datatype Tool = FunctionDeclarations "FunctionDeclaration list" | GoogleSearch

definition systemTools :: "Tool list" where
  "systemTools =
     [FunctionDeclarations
        [\<lparr>fd_name = ''manage_node'',
          fd_description = ''Modify the Aether system architecture. Create, update, or delete Agents, Tools, or Memories.'',
          fd_parameters = [''action'', ''nodeId'', ''parentId'', ''type'', ''name'', ''content'',
                           ''code'', ''language'']\<rparr>,
         \<lparr>fd_name = ''manage_simulation'',
          fd_description = ''Control the Runtime Hypervisor. Use this to fork the system into a safe simulation before applying risky changes, or to commit a simulation to live.'',
          fd_parameters = [''action'', ''reason'']\<rparr>]]"

definition shouldInclude :: "ProjectState \<Rightarrow> string list option \<Rightarrow> string \<Rightarrow> bool" where
  "shouldInclude p activeNodeIds i =
     (case activeNodeIds of None \<Rightarrow> True | Some ids \<Rightarrow> i \<in> set ids \<or> i = rootNodeId p)"

definition agent_block :: "AetherNode \<Rightarrow> string" where
  "agent_block node =
     newline @ ''['' @ show_type (node_type node) @ '': '' @ name node @ '' (ID: '' @ node_id node @
     '')]'' @ newline @ ''Instructions: '' @
     show_str (or_else (systemInstruction node) (Some ''None'')) @ newline"

definition tool_block :: "AetherNode \<Rightarrow> string" where
  "tool_block node =
     newline @ ''[Tool: '' @ name node @ '' (ID: '' @ node_id node @ '') - '' @
     show_str (toolType node) @ '']'' @ newline"

definition memory_block :: "AetherNode \<Rightarrow> string" where
  "memory_block node =
     newline @ ''[Memory: '' @ name node @ '' (ID: '' @ node_id node @ '')]'' @ newline @
     ''Content: '' @ show_str (or_else (memoryContent node) (Some ''Empty'')) @ newline"

definition tool_entry :: "AetherNode \<Rightarrow> Tool" where
  "tool_entry node =
     (if toolType node = Some ''googleSearch'' then GoogleSearch
      else FunctionDeclarations
             [\<lparr>fd_name = sanitizeName (name node),
               fd_description = ''Execute the custom tool '' @ apos @ name node @ apos @
                  ''. Logic: '' @ (if truthy (code node) then ''Defined in codebase'' else ''Standard''),
               fd_parameters = [''payload'']\<rparr>])"

text \<open>
  The body of \<open>traverse\<close> for a node that \<open>shouldInclude\<close> admits, on the pair of
  accumulators \<open>systemInstruction\<close> and \<open>tools\<close>.
\<close>

definition visitNode :: "AetherNode \<Rightarrow> string \<times> Tool list \<Rightarrow> string \<times> Tool list" where
  "visitNode node ctx =
     (if node_type node = Some AGENT \<or> node_type node = Some ROUTER
      then (fst ctx @ agent_block node, snd ctx)
      else if node_type node = Some TOOL
      then (fst ctx @ tool_block node, snd ctx @ [tool_entry node])
      else if node_type node = Some MEMORY
      then (fst ctx @ memory_block node, snd ctx)
      else ctx)"

definition visitIncluded ::
  "ProjectState \<Rightarrow> string list option \<Rightarrow> AetherNode \<Rightarrow> string \<times> Tool list \<Rightarrow> string \<times> Tool list" where
  "visitIncluded p a n ctx = (if shouldInclude p a (node_id n) then visitNode n ctx else ctx)"

definition children :: "NodeMap \<Rightarrow> string \<Rightarrow> AetherNode list" where
  "children ns nodeId = filter (\<lambda>n. parentId n = Some nodeId) (values_of ns)"

text \<open>
  \<open>traverse\<close> calls itself on every child, with nothing to stop it on a cycle. Its first
  argument here is the depth of call stack left: at depth zero the engine throws a
  \<open>RangeError\<close>, which leaves \<open>collectContext\<close> and is caught by \<open>streamResponse\<close>; the
  result is then \<open>None\<close>.
\<close>

fun traverse ::
  "nat \<Rightarrow> ProjectState \<Rightarrow> string list option \<Rightarrow> string \<Rightarrow> string \<times> Tool list \<Rightarrow>
   (string \<times> Tool list) option" where
  "traverse 0 p activeNodeIds nodeId ctx = None"
| "traverse (Suc depth) p activeNodeIds nodeId ctx =
     (case get_node (nodes p) nodeId of
        None \<Rightarrow> Some ctx
      | Some node \<Rightarrow>
          fold (\<lambda>c r. case r of
                         None \<Rightarrow> None
                       | Some ctx' \<Rightarrow> traverse depth p activeNodeIds (node_id c) ctx')
            (children (nodes p) nodeId)
            (Some (if shouldInclude p activeNodeIds nodeId then visitNode node ctx else ctx)))"

definition collectContext ::
  "nat \<Rightarrow> ProjectState \<Rightarrow> string list option \<Rightarrow> (string \<times> Tool list) option" where
  "collectContext depth p activeNodeIds =
     (case get_node (nodes p) (rootNodeId p) of
        None \<Rightarrow> Some (''System Error: Root missing.'', [])
      | Some root \<Rightarrow>
          traverse depth p activeNodeIds (rootNodeId p)
            (''Current Active System Stack:'' @ newline, systemTools))"

text \<open>\<open>convertToolsToOpenAI\<close> (lines 252-272): the catalog the universal driver sends.\<close>

definition convertToolsToOpenAI :: "Tool list \<Rightarrow> FunctionDeclaration list" where
  "convertToolsToOpenAI googleTools =
     concat (map (\<lambda>t. case t of GoogleSearch \<Rightarrow> [] | FunctionDeclarations fds \<Rightarrow> fds) googleTools)"

text \<open>
  For stating what the assembler computes: the order in which the traversal visits the
  nodes below an identifier (parent, then the subtrees of its children in store order),
  the block a node adds to the instruction text, the entries it adds to the catalog, and
  the number of capabilities a catalog offers (declarations and search entries).
\<close>

fun dfs :: "nat \<Rightarrow> NodeMap \<Rightarrow> string \<Rightarrow> AetherNode list option" where
  "dfs 0 ns nodeId = None"
| "dfs (Suc depth) ns nodeId =
     (case get_node ns nodeId of
        None \<Rightarrow> Some []
      | Some node \<Rightarrow>
          map_option (\<lambda>ls. node # concat ls)
            (those (map (\<lambda>c. dfs depth ns (node_id c)) (children ns nodeId))))"

definition block_of :: "AetherNode \<Rightarrow> string" where
  "block_of node =
     (if node_type node = Some AGENT \<or> node_type node = Some ROUTER then agent_block node
      else if node_type node = Some TOOL then tool_block node
      else if node_type node = Some MEMORY then memory_block node
      else [])"

definition entries_of :: "AetherNode \<Rightarrow> Tool list" where
  "entries_of node = (if node_type node = Some TOOL then [tool_entry node] else [])"

definition catalog_size :: "Tool list \<Rightarrow> nat" where
  "catalog_size tools =
     sum_list (map (\<lambda>t. case t of GoogleSearch \<Rightarrow> 1 | FunctionDeclarations fds \<Rightarrow> length fds) tools)"

definition active_tools :: "ProjectState \<Rightarrow> string list option \<Rightarrow> AetherNode list" where
  "active_tools p activeNodeIds =
     filter (\<lambda>n. shouldInclude p activeNodeIds (node_id n) \<and> node_type n = Some TOOL)
       (values_of (nodes p))"

text \<open>
  The catalog size as the specification's testable property words it: the active tools
  that are not search tools, one more if any active tool is a search tool, and two.
\<close>

definition spec_catalog_size :: "ProjectState \<Rightarrow> string list option \<Rightarrow> nat" where
  "spec_catalog_size p activeNodeIds =
     length (filter (\<lambda>n. toolType n \<noteq> Some ''googleSearch'') (active_tools p activeNodeIds)) +
     (if filter (\<lambda>n. toolType n = Some ''googleSearch'') (active_tools p activeNodeIds) \<noteq> []
      then 1 else 0) + 2"

text \<open>The name as the specification words it: the characters outside the class removed.\<close>

definition spec_stripped_name :: "string \<Rightarrow> string" where
  "spec_stripped_name nm = filter isWordChar nm"

section \<open>Universal delta driver (services/aiEngine.ts, after the separator in src/components/ConfigPanel.tsx, lines 330-467)\<close>

text \<open>
  The events of the stream. \<open>JSON.parse\<close> belongs to the platform: the driver takes
  \<open>decode\<close>, which stands for \<open>JSON.parse(line.slice(6))\<close> followed by
  \<open>json.choices[0]?.delta\<close> (\<open>None\<close> when either throws, which the empty \<open>catch\<close> of the
  line swallows), and \<open>JSON_parse\<close>, applied to an accumulated argument text (\<open>None\<close> when
  it throws). A delta carries an optional text and an optional list of tool-call
  fragments, each with its stream index and optional id, function name and argument slice.
\<close>

record ToolCallDelta =
  tc_index :: nat
  tc_id :: "string option"
  fn_name :: "string option"
  fn_arguments :: "string option"

record Delta =
  d_content :: "string option"
  d_tool_calls :: "ToolCallDelta list option"

record ToolCallAcc =
  acc_id :: "string option"
  acc_name :: "string option"
  acc_arguments :: string

text \<open>
  \<open>toolCallBuffer: Record<number, ...>\<close>. The buffer is the association list of the
  properties of that object in the order \<open>Object.values\<close> lists them: the keys that are
  array indices (the numbers below \<open>2^32 - 1\<close>) first, in ascending order, then the greater
  keys in the order in which they were first written. \<open>bufferUpdate\<close> is
  \<open>if (!toolCallBuffer[idx]) toolCallBuffer[idx] = { arguments: '' }\<close> followed by the
  writes \<open>g\<close> to that entry: a new array index is put before the first key that is no
  array index or a greater one, any other new key is appended.
\<close>

definition emptyAcc :: ToolCallAcc where
  "emptyAcc = \<lparr>acc_id = None, acc_name = None, acc_arguments = []\<rparr>"

definition isIndex :: "nat \<Rightarrow> bool" where
  "isIndex i = (i < 4294967295)"

definition indexBefore :: "nat \<Rightarrow> nat \<Rightarrow> bool" where
  "indexBefore idx k = (isIndex idx \<and> (if isIndex k then idx < k else True))"

fun bufferUpdate ::
  "(nat \<times> ToolCallAcc) list \<Rightarrow> nat \<Rightarrow> (ToolCallAcc \<Rightarrow> ToolCallAcc) \<Rightarrow> (nat \<times> ToolCallAcc) list" where
  "bufferUpdate [] idx g = [(idx, g emptyAcc)]"
| "bufferUpdate ((k, a) # rest) idx g =
     (if k = idx then (k, g a) # rest
      else if indexBefore idx k then (idx, g emptyAcc) # (k, a) # rest
      else (k, a) # bufferUpdate rest idx g)"

definition addFragment :: "ToolCallDelta \<Rightarrow> ToolCallAcc \<Rightarrow> ToolCallAcc" where
  "addFragment tc a =
     a\<lparr>acc_id := (if truthy (tc_id tc) then tc_id tc else acc_id a),
       acc_name := (if truthy (fn_name tc) then fn_name tc else acc_name a),
       acc_arguments :=
         (if truthy (fn_arguments tc) then acc_arguments a @ the (fn_arguments tc)
          else acc_arguments a)\<rparr>"

definition applyToolCall :: "ToolCallDelta \<Rightarrow> (nat \<times> ToolCallAcc) list \<Rightarrow> (nat \<times> ToolCallAcc) list" where
  "applyToolCall tc buf = bufferUpdate buf (tc_index tc) (addFragment tc)"

text \<open>
  The state of the read loop: the text not yet ended by a newline, the tool-call buffer,
  and the texts passed to \<open>onChunk\<close> so far.
\<close>

record StreamState =
  buffer :: string
  toolCallBuffer :: "(nat \<times> ToolCallAcc) list"
  chunks_out :: "string list"

text \<open>\<open>buffer.split('\n')\<close>: the pieces between newlines, at least one.\<close>

fun split_nl :: "string \<Rightarrow> string list" where
  "split_nl [] = [[]]"
| "split_nl (c # cs) =
     (if c = CHR 0x0A then [] # split_nl cs
      else (case split_nl cs of [] \<Rightarrow> [[c]] | l # ls \<Rightarrow> (c # l) # ls))"

definition applyDelta :: "Delta \<Rightarrow> StreamState \<Rightarrow> StreamState" where
  "applyDelta delta s =
     (let s1 = (if truthy (d_content delta)
                then s\<lparr>chunks_out := chunks_out s @ [the (d_content delta)]\<rparr> else s)
      in case d_tool_calls delta of
           None \<Rightarrow> s1
         | Some tcs \<Rightarrow> s1\<lparr>toolCallBuffer := fold applyToolCall tcs (toolCallBuffer s1)\<rparr>)"

definition processLine :: "(string \<Rightarrow> Delta option) \<Rightarrow> string \<Rightarrow> StreamState \<Rightarrow> StreamState" where
  "processLine decode line s =
     (if trim line = [] \<or> trim line = ''data: [DONE]'' then s
      else if take 6 line = ''data: '' then
        (case decode (drop 6 line) of None \<Rightarrow> s | Some delta \<Rightarrow> applyDelta delta s)
      else s)"

definition processChunk :: "(string \<Rightarrow> Delta option) \<Rightarrow> string \<Rightarrow> StreamState \<Rightarrow> StreamState" where
  "processChunk decode chunk s =
     (let lines = split_nl (buffer s @ chunk)
      in fold (processLine decode) (butlast lines) (s\<lparr>buffer := last lines\<rparr>))"

definition readStream :: "(string \<Rightarrow> Delta option) \<Rightarrow> string list \<Rightarrow> StreamState" where
  "readStream decode chunks =
     fold (processChunk decode) chunks \<lparr>buffer = [], toolCallBuffer = [], chunks_out = []\<rparr>"

text \<open>
  The response and the callbacks. A response that is not ok, or has no body, throws before
  the stream is read and ends in \<open>onError\<close>; after the stream, every buffered call whose
  argument text parses is emitted, in index order, and \<open>onToolCall\<close> or \<open>onComplete\<close> is
  called.
\<close>

datatype Response = NotOk nat string | NoBody | Body "string list"

datatype DriverError = ProviderError nat string | NoResponseBody

datatype 'j Outcome = OnToolCall "(string option \<times> 'j) list" | OnComplete | OnError DriverError

definition finalToolCalls ::
  "(string \<Rightarrow> 'j option) \<Rightarrow> (nat \<times> ToolCallAcc) list \<Rightarrow> (string option \<times> 'j) list" where
  "finalToolCalls JSON_parse buf =
     List.map_filter
       (\<lambda>e. case JSON_parse (acc_arguments (snd e)) of
               None \<Rightarrow> None
             | Some v \<Rightarrow> Some (acc_name (snd e), v))
       buf"

definition executeUniversalRequest ::
  "(string \<Rightarrow> 'j option) \<Rightarrow> (string \<Rightarrow> Delta option) \<Rightarrow> Response \<Rightarrow> string list \<times> 'j Outcome" where
  "executeUniversalRequest JSON_parse decode response =
     (case response of
        NotOk status err \<Rightarrow> ([], OnError (ProviderError status err))
      | NoBody \<Rightarrow> ([], OnError NoResponseBody)
      | Body chunks \<Rightarrow>
          (let s = readStream decode chunks;
               final = finalToolCalls JSON_parse (toolCallBuffer s)
           in (chunks_out s, if final \<noteq> [] then OnToolCall final else OnComplete)))"

text \<open>
  For stating what the driver computes: the lines of a stream text (every piece that a
  newline ends), the deltas they decode to, the tool-call fragments in arrival order, and
  the argument text of the fragments of one index.
\<close>

definition stream_lines :: "string \<Rightarrow> string list" where
  "stream_lines txt = butlast (split_nl txt)"

definition line_delta :: "(string \<Rightarrow> Delta option) \<Rightarrow> string \<Rightarrow> Delta option" where
  "line_delta decode line =
     (if trim line = [] \<or> trim line = ''data: [DONE]'' then None
      else if take 6 line = ''data: '' then decode (drop 6 line)
      else None)"

definition frags_of_lines :: "(string \<Rightarrow> Delta option) \<Rightarrow> string list \<Rightarrow> ToolCallDelta list" where
  "frags_of_lines decode ls =
     concat (map (\<lambda>d. case d_tool_calls d of None \<Rightarrow> [] | Some tcs \<Rightarrow> tcs)
               (List.map_filter (line_delta decode) ls))"

definition texts_of_lines :: "(string \<Rightarrow> Delta option) \<Rightarrow> string list \<Rightarrow> string list" where
  "texts_of_lines decode ls =
     map the (filter truthy (map d_content (List.map_filter (line_delta decode) ls)))"

definition stream_fragments :: "(string \<Rightarrow> Delta option) \<Rightarrow> string \<Rightarrow> ToolCallDelta list" where
  "stream_fragments decode txt = frags_of_lines decode (stream_lines txt)"

definition stream_texts :: "(string \<Rightarrow> Delta option) \<Rightarrow> string \<Rightarrow> string list" where
  "stream_texts decode txt = texts_of_lines decode (stream_lines txt)"

definition arguments_at :: "nat \<Rightarrow> ToolCallDelta list \<Rightarrow> string" where
  "arguments_at i frags =
     concat (map (\<lambda>tc. case fn_arguments tc of None \<Rightarrow> [] | Some a \<Rightarrow> a)
               (filter (\<lambda>tc. tc_index tc = i) frags))"

text \<open>The name the buffer holds for an index: the last non-empty name among its fragments.\<close>

definition name_at :: "nat \<Rightarrow> ToolCallDelta list \<Rightarrow> string option" where
  "name_at i frags =
     (case filter truthy (map fn_name (filter (\<lambda>tc. tc_index tc = i) frags)) of
        [] \<Rightarrow> None
      | n # ns \<Rightarrow> last (n # ns))"

definition acc_at :: "(nat \<times> ToolCallAcc) list \<Rightarrow> nat \<Rightarrow> ToolCallAcc" where
  "acc_at buf i = (case map_of buf i of None \<Rightarrow> emptyAcc | Some a \<Rightarrow> a)"

text \<open>
  The order in which an object lists the keys written to it in the order \<open>ks\<close>: the array
  indices ascending, then the other keys by first occurrence. \<open>insKey\<close> is what one write
  does to the list of keys, and \<open>listed\<close> holds of a list of keys in which no key occurs
  twice and none stands after a key it is listed before.
\<close>

definition listing_order :: "nat list \<Rightarrow> nat list" where
  "listing_order ks =
     sorted_list_of_set (set (filter isIndex ks)) @
     rev (remdups (rev (filter (\<lambda>k. \<not> isIndex k) ks)))"

fun insKey :: "nat list \<Rightarrow> nat \<Rightarrow> nat list" where
  "insKey [] i = [i]"
| "insKey (k # ks) i =
     (if k = i then k # ks else if indexBefore i k then i # k # ks else k # insKey ks i)"

fun listed :: "nat list \<Rightarrow> bool" where
  "listed [] = True"
| "listed (k # ks) = (list_all (\<lambda>j. k \<noteq> j \<and> \<not> indexBefore j k) ks \<and> listed ks)"

section \<open>Example stores and calls\<close>

text \<open>
  A store of the shape of \<open>DEFAULT_PROJECT\<close> (a \<open>SYSTEM\<close> root with an agent and a memory
  below it; the long memory texts are not reproduced), the calls of the two administrative
  tools, and a world whose identifiers are \<open>n\<close>, \<open>nx\<close>, \<open>nxx\<close>, ..., which has no desktop
  bridge and whose script runner knows three sources: the default source of a node without
  code, which returns \<open>No code defined\<close>, \<open>return 42;\<close>, and \<open>throw null;\<close>; any other source
  throws a \<open>SyntaxError\<close>. Its \<open>TypeError\<close> messages are those of V8.
\<close>

definition mkNode :: "string \<Rightarrow> NodeType \<Rightarrow> string \<Rightarrow> string option \<Rightarrow> AetherNode" where
  "mkNode i ty nm par =
     \<lparr>node_id = i, node_type = Some ty, name = nm, parentId = par, isActive = None,
      provider = None, model = None, systemInstruction = None, toolType = None,
      code = None, language = None, memoryContent = None\<rparr>"

definition example_project :: ProjectState where
  "example_project =
     \<lparr>rootNodeId = ''root'',
      nodes = [(''root'', mkNode ''root'' SYSTEM ''Aether_Kernel'' None),
               (''agent_core'', mkNode ''agent_core'' AGENT ''Orchestrator'' (Some ''root'')),
               (''mem_readme'', mkNode ''mem_readme'' MEMORY ''ARCHITECTURE.md'' (Some ''root''))],
      selectedNodeId = ''root''\<rparr>"

definition noArgs :: ToolArgs where
  "noArgs = \<lparr>a_action = None, a_nodeId = None, a_parentId = None, a_type = None,
     a_name = None, a_content = None, a_code = None, a_language = None, a_toolType = None,
     a_reason = None, a_payload = None\<rparr>"

definition simCall :: "string \<Rightarrow> ToolCall" where
  "simCall act =
     \<lparr>call_name = Some ''manage_simulation'', call_args = Inr (noArgs\<lparr>a_action := Some act\<rparr>)\<rparr>"

definition createCall :: "string \<Rightarrow> ToolCall" where
  "createCall nm =
     \<lparr>call_name = Some ''manage_node'',
      call_args =
        Inr (noArgs\<lparr>a_action := Some ''create'', a_type := Some MEMORY, a_name := Some nm\<rparr>)\<rparr>"

definition updateCall :: "string \<Rightarrow> ToolArgs \<Rightarrow> ToolCall" where
  "updateCall i args =
     \<lparr>call_name = Some ''manage_node'',
      call_args = Inr (args\<lparr>a_action := Some ''update'', a_nodeId := Some i\<rparr>)\<rparr>"

definition toolCall :: "string \<Rightarrow> ToolCall" where
  "toolCall nm = \<lparr>call_name = Some nm, call_args = Inr noArgs\<rparr>"

text \<open>
  A call whose arguments are \<open>null\<close>, as the universal driver emits it, or \<open>undefined\<close>.
\<close>

definition nullishCall :: "string \<Rightarrow> Nullish \<Rightarrow> ToolCall" where
  "nullishCall nm v = \<lparr>call_name = Some nm, call_args = Inl v\<rparr>"

definition example_world :: World where
  "example_world =
     \<lparr>uuid = (\<lambda>n. ''n'' @ replicate n CHR ''x''), electron = None,
      asyncFunction =
        (\<lambda>src call.
           if src = ''return '' @ dquote @ ''No code defined'' @ dquote @ '';''
           then Inr ''No code defined''
           else if src = ''return 42;'' then Inr ''42''
           else if src = ''throw null;'' then Inl (ThrownNullish Null)
           else Inl (ThrownValue (Some ''Unexpected identifier''))),
      typeErrorMessage =
        (\<lambda>v prop. ''Cannot read properties of '' @
           (case v of Null \<Rightarrow> ''null'' | Undefined \<Rightarrow> ''undefined'') @
           '' (reading '' @ apos @ prop @ apos @ '')'')\<rparr>"

definition live_state :: AppState where
  "live_state =
     \<lparr>project = example_project, isSimulating = False, simulatedProject = None,
      activeContextIds = [''root'', ''agent_core'', ''mem_readme''], isLoading = False\<rparr>"

definition forked_state :: AppState where
  "forked_state =
     \<lparr>project = example_project, isSimulating = True,
      simulatedProject = Some (example_project\<lparr>nodes := delete_node (nodes example_project) ''mem_readme''\<rparr>),
      activeContextIds = [''root'', ''agent_core'', ''mem_readme''], isLoading = False\<rparr>"

definition turn_of :: "AppState \<Rightarrow> Turn" where
  "turn_of st =
     \<lparr>nextProject = activeProject st, nextStack = activeContextIds st, modified = False,
      triggeredSimulationChange = False, newHistory = [], app = st, drawn = 0,
      escaped = None\<rparr>"

text \<open>
  Two turns sent from the live state: one whose phases call \<open>start\<close> and then create a
  node, and its continuation by \<open>abort\<close> and a second creation.
\<close>

definition sandboxed_turn :: Turn where
  "sandboxed_turn =
     handleSend live_state example_world
       [([], [simCall ''start'']), ([], [createCall ''Scratchpad''])] [] ''go'' None False"

definition aborted_turn :: Turn where
  "aborted_turn =
     handleSend live_state example_world
       [([], [simCall ''start'']), ([], [createCall ''Scratchpad'']),
        ([], [simCall ''abort'']), ([], [createCall ''Second''])] [] ''go'' None False"

text \<open>
  Two turns sent while a simulation is active (its fork lacks \<open>mem_readme\<close>): one whose only
  phase calls \<open>abort\<close>, and its continuation by a phase that calls \<open>commit\<close>.
\<close>

definition abort_turn :: Turn where
  "abort_turn =
     handleSend forked_state example_world [([], [simCall ''abort''])] [] ''go'' None False"

definition abort_commit_turn :: Turn where
  "abort_commit_turn =
     handleSend forked_state example_world
       [([], [simCall ''abort'']), ([], [simCall ''commit''])] [] ''go'' None False"

text \<open>
  Two turns sent from the live state whose first phase emits a batch of three calls, the
  second of them a \<open>manage_simulation\<close> call with \<open>null\<close> arguments in the one and with the
  action \<open>abort\<close> in the other; a second phase creates a node.
\<close>

definition null_args_turn :: Turn where
  "null_args_turn =
     handleSend live_state example_world
       [([], [createCall ''First'', nullishCall ''manage_simulation'' Null, createCall ''Third'']),
        ([], [createCall ''Later''])] [] ''go'' None False"

definition sound_args_turn :: Turn where
  "sound_args_turn =
     handleSend live_state example_world
       [([], [createCall ''First'', simCall ''abort'', createCall ''Third'']),
        ([], [createCall ''Later''])] [] ''go'' None False"

text \<open>A chain of three agents below the root, and a store with one tool.\<close>

definition chain_project :: ProjectState where
  "chain_project =
     \<lparr>rootNodeId = ''root'',
      nodes = [(''root'', mkNode ''root'' SYSTEM ''Aether_Kernel'' None),
               (''a'', mkNode ''a'' AGENT ''A'' (Some ''root'')),
               (''b'', mkNode ''b'' AGENT ''B'' (Some ''a'')),
               (''c'', mkNode ''c'' AGENT ''C'' (Some ''b''))],
      selectedNodeId = ''a''\<rparr>"

definition time_tool :: AetherNode where
  "time_tool =
     (mkNode ''tool_time'' TOOL ''Get Time'' (Some ''root''))
       \<lparr>toolType := Some ''function'', code := Some ''return 42;'',
        language := Some ''javascript''\<rparr>"

definition tool_project :: ProjectState where
  "tool_project =
     example_project\<lparr>nodes := set_node (nodes example_project) ''tool_time'' time_tool\<rparr>"

definition tool_state :: AppState where
  "tool_state =
     \<lparr>project = tool_project, isSimulating = False, simulatedProject = None,
      activeContextIds = [''root'', ''agent_core'', ''mem_readme'', ''tool_time''],
      isLoading = False\<rparr>"

text \<open>The same store with a second tool, whose code throws \<open>null\<close>.\<close>

definition null_tool :: AetherNode where
  "null_tool =
     (mkNode ''tool_null'' TOOL ''Fail'' (Some ''root''))
       \<lparr>toolType := Some ''function'', code := Some ''throw null;'',
        language := Some ''javascript''\<rparr>"

definition null_tool_state :: AppState where
  "null_tool_state =
     tool_state\<lparr>project := tool_project\<lparr>nodes := set_node (nodes tool_project) ''tool_null'' null_tool\<rparr>,
                activeContextIds := activeContextIds tool_state @ [''tool_null'']\<rparr>"

definition clearArgs :: ToolArgs where
  "clearArgs = noArgs\<lparr>a_name := Some [], a_code := Some [], a_content := Some []\<rparr>"

text \<open>A store with three search tools, and one with two tools whose names sanitize alike.\<close>

definition search_tool :: "string \<Rightarrow> AetherNode" where
  "search_tool i = (mkNode i TOOL (''Search '' @ i) (Some ''root''))\<lparr>toolType := Some ''googleSearch''\<rparr>"

definition search_project :: ProjectState where
  "search_project =
     \<lparr>rootNodeId = ''root'',
      nodes = [(''root'', mkNode ''root'' SYSTEM ''Aether_Kernel'' None),
               (''s1'', search_tool ''s1''), (''s2'', search_tool ''s2''),
               (''s3'', search_tool ''s3'')],
      selectedNodeId = ''root''\<rparr>"

definition collision_project :: ProjectState where
  "collision_project =
     \<lparr>rootNodeId = ''root'',
      nodes = [(''root'', mkNode ''root'' SYSTEM ''Aether_Kernel'' None),
               (''t1'', (mkNode ''t1'' TOOL ''Get Time'' (Some ''root''))\<lparr>toolType := Some ''function''\<rparr>),
               (''t2'', (mkNode ''t2'' TOOL ''Get-Time'' (Some ''root''))\<lparr>toolType := Some ''api''\<rparr>)],
      selectedNodeId = ''root''\<rparr>"

text \<open>
  An example stream. Three events \<open>e1\<close>, \<open>e2\<close>, \<open>e3\<close> arrive in two network chunks that do
  not end at line ends. \<open>e1\<close> and \<open>e2\<close> carry the two argument slices of the call \<open>f\<close> at
  index 0, \<open>e3\<close> an argument text at index 1 that is not JSON. The parser of the example
  accepts the one text \<open>{"a":1,"b":2}\<close>.
\<close>

datatype json = JNum int | JStr string | JObj "(string \<times> json) list"

definition slice1 :: string where
  "slice1 = ''{'' @ dquote @ ''a'' @ dquote @ '':1''"

definition slice2 :: string where
  "slice2 = '','' @ dquote @ ''b'' @ dquote @ '':2}''"

definition example_decode :: "string \<Rightarrow> Delta option" where
  "example_decode payload =
     (if payload = ''e1'' then
        Some \<lparr>d_content = None,
              d_tool_calls = Some [\<lparr>tc_index = 0, tc_id = Some ''call_1'', fn_name = Some ''f'',
                                    fn_arguments = Some slice1\<rparr>]\<rparr>
      else if payload = ''e2'' then
        Some \<lparr>d_content = None,
              d_tool_calls = Some [\<lparr>tc_index = 0, tc_id = None, fn_name = None,
                                    fn_arguments = Some slice2\<rparr>]\<rparr>
      else if payload = ''e3'' then
        Some \<lparr>d_content = Some ''thinking'',
              d_tool_calls = Some [\<lparr>tc_index = 1, tc_id = Some ''call_2'', fn_name = Some ''g'',
                                    fn_arguments = Some ''{broken''\<rparr>]\<rparr>
      else None)"

definition example_parse :: "string \<Rightarrow> json option" where
  "example_parse s =
     (if s = slice1 @ slice2 then Some (JObj [(''a'', JNum 1), (''b'', JNum 2)]) else None)"

definition example_chunks :: "string list" where
  "example_chunks =
     [''data: e1'' @ newline @ ''data: e3'' @ newline @ ''da'',
      ''ta: e2'' @ newline @ ''data: [DONE]'' @ newline]"

section \<open>Verified properties\<close>

subsection \<open>The history built by the loop\<close>

lemma get_node_set_node: "get_node (set_node ns k v) k' = (if k' = k then Some v else get_node ns k')"
  by (induction ns) (auto simp: get_node_def)

lemma manage_node_fields:
  "newHistory (fst (manage_node w args t)) = newHistory t \<and>
   escaped (fst (manage_node w args t)) = escaped t \<and>
   app (fst (manage_node w args t)) = app t"
  by (simp add: manage_node_def manage_node_create_def manage_node_update_def
      manage_node_delete_def Let_def split: option.splits sum.splits)

lemma dispatchCall_fields:
  "dispatchCall render w c t = Inr r \<Longrightarrow>
     newHistory (fst r) = newHistory t \<and> escaped (fst r) = escaped t"
  by (auto simp: dispatchCall_def manage_simulation_def manage_node_fields runtime_executor_def
      split: option.splits if_splits sum.splits)

lemma processCall_cases:
  "(\<exists>e. dispatchCall render w c t = Inl e \<and> processCall render w c t = t\<lparr>escaped := Some e\<rparr>) \<or>
   (\<exists>r. dispatchCall render w c t = Inr r \<and> escaped (processCall render w c t) = escaped t \<and>
        newHistory (processCall render w c t) = newHistory t @ [toolResponseMsg c (snd r)])"
proof (cases "dispatchCall render w c t")
  case (Inl e)
  then show ?thesis by (simp add: processCall_def)
next
  case (Inr r)
  with dispatchCall_fields [OF Inr] show ?thesis by (simp add: processCall_def)
qed

text \<open>
  When no exception leaves the loop, a batch of \<open>n\<close> calls leaves \<open>n\<close> results, one per call
  and in the order of the calls; when one does, the results are those of the calls before
  the one that threw, fewer than \<open>n\<close>.
\<close>

lemma processCalls_newHistory:
  "escaped t = None \<Longrightarrow>
   \<exists>results.
     (if escaped (processCalls render w calls t) = None then length results = length calls
      else length results < length calls) \<and>
     newHistory (processCalls render w calls t) =
       newHistory t @ map2 toolResponseMsg calls results"
proof (induction calls arbitrary: t)
  case Nil
  then show ?case by simp
next
  case (Cons c cs)
  from processCall_cases [of render w c t] show ?case
  proof (elim disjE exE conjE)
    fix e assume "dispatchCall render w c t = Inl e"
      and p: "processCall render w c t = t\<lparr>escaped := Some e\<rparr>"
    have "(if escaped (processCalls render w (c # cs) t) = None then length ([]::string list) = length (c # cs)
           else length ([]::string list) < length (c # cs)) \<and>
          newHistory (processCalls render w (c # cs) t) = newHistory t @ map2 toolResponseMsg (c # cs) []"
      using p by (simp add: Let_def)
    then show ?thesis by blast
  next
    fix r assume "dispatchCall render w c t = Inr r"
      and e: "escaped (processCall render w c t) = escaped t"
      and h: "newHistory (processCall render w c t) = newHistory t @ [toolResponseMsg c (snd r)]"
    let ?t' = "processCall render w c t"
    from e Cons.prems have e': "escaped ?t' = None" by simp
    from Cons.IH [OF e'] obtain rs where
      rs: "if escaped (processCalls render w cs ?t') = None then length rs = length cs
           else length rs < length cs"
        "newHistory (processCalls render w cs ?t') = newHistory ?t' @ map2 toolResponseMsg cs rs"
      by blast
    have "(if escaped (processCalls render w (c # cs) t) = None then length (snd r # rs) = length (c # cs)
           else length (snd r # rs) < length (c # cs)) \<and>
          newHistory (processCalls render w (c # cs) t) =
            newHistory t @ map2 toolResponseMsg (c # cs) (snd r # rs)"
      using rs e' h by (simp add: Let_def split: if_splits)
    then show ?thesis by blast
  qed
qed

lemma map2_toolResponseMsg_names:
  "map (map_option tr_name \<circ> toolResponse) (map2 toolResponseMsg calls results) =
     map (Some \<circ> call_name) (take (length results) calls)"
proof (induction calls arbitrary: results)
  case Nil
  show ?case by simp
next
  case (Cons c cs)
  then show ?case by (cases results) (simp_all add: toolResponseMsg_def)
qed

lemma onToolCall_processCalls:
  "newHistory (onToolCall render w h txt proj stack calls st n) =
     newHistory (processCalls render w calls
                \<lparr>nextProject = proj, nextStack = stack, modified = False,
                 triggeredSimulationChange = False,
                 newHistory = h @ [modelMsg txt calls],
                 app = st, drawn = n, escaped = None\<rparr>) \<and>
   escaped (onToolCall render w h txt proj stack calls st n) =
     escaped (processCalls render w calls
                \<lparr>nextProject = proj, nextStack = stack, modified = False,
                 triggeredSimulationChange = False,
                 newHistory = h @ [modelMsg txt calls],
                 app = st, drawn = n, escaped = None\<rparr>)"
  by (simp add: onToolCall_def Let_def)

lemma results_when_nothing_escapes:
  assumes "escaped (onToolCall render w h txt proj stack calls st n) = None"
  shows "\<exists>results. length results = length calls \<and>
     newHistory (onToolCall render w h txt proj stack calls st n) =
       h @ [modelMsg txt calls] @ map2 toolResponseMsg calls results \<and>
     map (map_option tr_name \<circ> toolResponse) (map2 toolResponseMsg calls results) =
       map (Some \<circ> call_name) calls \<and>
     processChatTurn render w ((txt, calls) # phases) h proj stack st n =
       (let t = onToolCall render w h txt proj stack calls st n
        in processChatTurn render w phases
             (h @ [modelMsg txt calls] @ map2 toolResponseMsg calls results)
             (nextProject t) (nextStack t) (app t) (drawn t))"
proof -
  let ?t0 = "\<lparr>nextProject = proj, nextStack = stack, modified = False,
                 triggeredSimulationChange = False,
                 newHistory = h @ [modelMsg txt calls],
                 app = st, drawn = n, escaped = None\<rparr>"
  from assms have e: "escaped (processCalls render w calls ?t0) = None"
    by (simp add: onToolCall_processCalls)
  from processCalls_newHistory [of ?t0 render w calls] e obtain rs where
    rs: "length rs = length calls"
      "newHistory (processCalls render w calls ?t0) = newHistory ?t0 @ map2 toolResponseMsg calls rs"
    by auto
  have h: "newHistory (onToolCall render w h txt proj stack calls st n) =
       h @ [modelMsg txt calls] @ map2 toolResponseMsg calls rs"
    using rs(2) by (simp add: onToolCall_processCalls)
  have names: "map (map_option tr_name \<circ> toolResponse) (map2 toolResponseMsg calls rs) =
       map (Some \<circ> call_name) calls"
    using rs(1) map2_toolResponseMsg_names [of calls rs] by simp
  have rec: "processChatTurn render w ((txt, calls) # phases) h proj stack st n =
       (let t = onToolCall render w h txt proj stack calls st n
        in processChatTurn render w phases
             (h @ [modelMsg txt calls] @ map2 toolResponseMsg calls rs)
             (nextProject t) (nextStack t) (app t) (drawn t))"
    using h assms by (simp add: Let_def)
  from rs(1) h names rec show ?thesis by blast
qed

lemma results_when_one_escapes:
  assumes "escaped (onToolCall render w h txt proj stack calls st n) \<noteq> None"
  shows "\<exists>results. length results < length calls \<and>
     newHistory (onToolCall render w h txt proj stack calls st n) =
       h @ [modelMsg txt calls] @ map2 toolResponseMsg calls results \<and>
     processChatTurn render w ((txt, calls) # phases) h proj stack st n =
       onToolCall render w h txt proj stack calls st n"
proof -
  let ?t0 = "\<lparr>nextProject = proj, nextStack = stack, modified = False,
                 triggeredSimulationChange = False,
                 newHistory = h @ [modelMsg txt calls],
                 app = st, drawn = n, escaped = None\<rparr>"
  from assms have e: "escaped (processCalls render w calls ?t0) \<noteq> None"
    by (simp add: onToolCall_processCalls)
  from processCalls_newHistory [of ?t0 render w calls] e obtain rs where
    rs: "length rs < length calls"
      "newHistory (processCalls render w calls ?t0) = newHistory ?t0 @ map2 toolResponseMsg calls rs"
    by auto
  have h: "newHistory (onToolCall render w h txt proj stack calls st n) =
       h @ [modelMsg txt calls] @ map2 toolResponseMsg calls rs"
    using rs(2) by (simp add: onToolCall_processCalls)
  have rec: "processChatTurn render w ((txt, calls) # phases) h proj stack st n =
       onToolCall render w h txt proj stack calls st n"
    using assms by (auto simp: Let_def)
  from rs(1) h rec show ?thesis by blast
qed

lemma null_simulation_call_escapes:
  "processCall render w (nullishCall ''manage_simulation'' v) t =
     t\<lparr>escaped := Some (TypeError (typeErrorMessage w v ''action''))\<rparr>"
  by (simp add: processCall_def dispatchCall_def manage_simulation_def nullishCall_def)

text \<open>
  Claim C2, at its failing input. A \<open>manage_simulation\<close> call whose arguments are \<open>null\<close>
  or \<open>undefined\<close> (\<open>v\<close>) throws where the branch reads \<open>args.action\<close>, outside any \<open>try\<close>:
  whatever the state, the
  call leaves no result, and a batch that begins with it ends the turn with the model
  message as the last entry of the history, no tool result, no recursion into the phases
  that follow, and the state as it was (\<open>isLoading\<close> is not reset). In the example the
  batch has three calls: the first gets its result, the second throws, the third is not
  run; the history ends with one tool result for three calls, the node created by the
  first call is not written back, the second phase is not requested and the interface
  stays loading. With the action \<open>abort\<close> in place of \<open>null\<close> the same turn appends three
  results, runs its second phase and completes.
\<close>

theorem C2_null_arguments_leave_no_result:
  "processCall render w (nullishCall ''manage_simulation'' v) t =
     t\<lparr>escaped := Some (TypeError (typeErrorMessage w v ''action''))\<rparr> \<and>
   processChatTurn render w ((txt, nullishCall ''manage_simulation'' v # calls) # phases)
       h proj stack st n =
     \<lparr>nextProject = proj, nextStack = stack, modified = False,
      triggeredSimulationChange = False,
      newHistory = h @ [modelMsg txt (nullishCall ''manage_simulation'' v # calls)],
      app = st, drawn = n,
      escaped = Some (TypeError (typeErrorMessage w v ''action''))\<rparr> \<and>
   escaped null_args_turn =
     Some (TypeError (''Cannot read properties of null (reading '' @ apos @ ''action'' @ apos @ '')'')) \<and>
   map role (newHistory null_args_turn) = [Role_USER, Role_MODEL, Role_TOOL] \<and>
   map (map_option tr_content \<circ> toolResponse) (newHistory null_args_turn) =
     [None, None, Some ''Success. Node created with ID: n''] \<and>
   map fst (nodes (nextProject null_args_turn)) = [''root'', ''agent_core'', ''mem_readme'', ''n''] \<and>
   project (app null_args_turn) = example_project \<and>
   isLoading (app null_args_turn) \<and>
   escaped sound_args_turn = None \<and>
   map role (newHistory sound_args_turn) =
     [Role_USER, Role_MODEL, Role_TOOL, Role_TOOL, Role_TOOL, Role_MODEL, Role_TOOL] \<and>
   \<not> isLoading (app sound_args_turn)"
proof -
  have a: "processCall render w (nullishCall ''manage_simulation'' v) t =
     t\<lparr>escaped := Some (TypeError (typeErrorMessage w v ''action''))\<rparr>"
    by (rule null_simulation_call_escapes)
  have b: "processChatTurn render w ((txt, nullishCall ''manage_simulation'' v # calls) # phases)
       h proj stack st n =
     \<lparr>nextProject = proj, nextStack = stack, modified = False,
      triggeredSimulationChange = False,
      newHistory = h @ [modelMsg txt (nullishCall ''manage_simulation'' v # calls)],
      app = st, drawn = n,
      escaped = Some (TypeError (typeErrorMessage w v ''action''))\<rparr>"
    by (simp add: onToolCall_def null_simulation_call_escapes Let_def)
  have c: "escaped null_args_turn =
     Some (TypeError (''Cannot read properties of null (reading '' @ apos @ ''action'' @ apos @ '')''))"
    by code_simp
  have d: "map role (newHistory null_args_turn) = [Role_USER, Role_MODEL, Role_TOOL]"
    by code_simp
  have e: "map (map_option tr_content \<circ> toolResponse) (newHistory null_args_turn) =
     [None, None, Some ''Success. Node created with ID: n'']"
    by code_simp
  have f: "map fst (nodes (nextProject null_args_turn)) = [''root'', ''agent_core'', ''mem_readme'', ''n'']"
    by code_simp
  have g: "project (app null_args_turn) = example_project"
    by code_simp
  have i: "isLoading (app null_args_turn)"
    by code_simp
  have j: "escaped sound_args_turn = None"
    by code_simp
  have k: "map role (newHistory sound_args_turn) =
     [Role_USER, Role_MODEL, Role_TOOL, Role_TOOL, Role_TOOL, Role_MODEL, Role_TOOL]"
    by code_simp
  have l: "\<not> isLoading (app sound_args_turn)"
    by code_simp
  from a b c d e f g i j k l show ?thesis by (intro conjI)
qed

text \<open>
  The same happens in the runtime executor when the code of a tool throws \<open>null\<close>: the
  \<open>catch\<close> reads \<open>e.message\<close> and throws in turn.
\<close>

lemma tool_throwing_null_leaves_no_result:
  "processCall null_tool_state example_world (toolCall ''Fail'') (turn_of null_tool_state) =
     (turn_of null_tool_state)
       \<lparr>escaped := Some (TypeError
          (''Cannot read properties of null (reading '' @ apos @ ''message'' @ apos @ '')''))\<rparr>"
  by code_simp

subsection \<open>The simulation manager\<close>

text \<open>
  What holds of the two handlers in every state: \<open>abortSimulation\<close> never writes
  \<open>project\<close>, and without a fork it changes nothing at all; \<open>commitSimulation\<close> is guarded by
  \<open>if (simulatedProject)\<close>, the fork as bound in the render that created the handler, and
  changes nothing when that render had none; so a handler whose render is current is a
  no-op without a fork.
\<close>

lemma abort_never_writes_project:
  "project (abortSimulation st) = project st \<and>
   (simulatedProject st = None \<and> \<not> isSimulating st \<longrightarrow> abortSimulation st = st)"
  by (simp add: abortSimulation_def)

lemma commit_guard_reads_render:
  "(simulatedProject render = None \<longrightarrow> commitSimulation render st = st) \<and>
   (simulatedProject st = None \<longrightarrow> commitSimulation st st = st)"
  by (simp add: commitSimulation_def)

text \<open>
  Claim C9, at its failing input. A turn is sent while a simulation is active; its first
  phase calls \<open>abort\<close>, after which no fork is active and the live store is as it was. The
  second phase calls \<open>commit\<close>: the guard of \<open>commitSimulation\<close> reads \<open>simulatedProject\<close> as
  bound in the render the turn began in, finds the aborted fork, and writes it over the
  live store, which loses \<open>mem_readme\<close>; the result reports a commit. The last three
  facts show the same on the handlers themselves: \<open>commitSimulation\<close> of the render that
  held the fork, applied to the state \<open>abortSimulation\<close> has left.
\<close>

theorem C9_commit_without_fork_overwrites_live_store:
  "simulatedProject (app abort_turn) = None \<and>
   \<not> isSimulating (app abort_turn) \<and>
   project (app abort_turn) = example_project \<and>
   map fst (nodes example_project) = [''root'', ''agent_core'', ''mem_readme''] \<and>
   map fst (nodes (project (app abort_commit_turn))) = [''root'', ''agent_core''] \<and>
   map (map_option tr_content \<circ> toolResponse) (newHistory abort_commit_turn) =
     [None, None, Some ''Simulation Aborted.'', None, Some ''Simulation Committed to Live.''] \<and>
   simulatedProject (abortSimulation forked_state) = None \<and>
   project (abortSimulation forked_state) = example_project \<and>
   map fst (nodes (project (commitSimulation forked_state (abortSimulation forked_state)))) =
     [''root'', ''agent_core'']"
  by code_simp

text \<open>
  Claim C6, counterexample. \<open>startSimulation\<close> has no guard. Started while a fork exists
  (here a fork from which \<open>mem_readme\<close> was deleted), it replaces the fork by a copy of the
  live store and reports a started simulation, not an active one.
\<close>

theorem C6_counterexample:
  "isSimulating forked_state \<and>
   map fst (nodes (the (simulatedProject forked_state))) = [''root'', ''agent_core''] \<and>
   map fst (nodes (the (simulatedProject (app (processCall forked_state example_world
      (simCall ''start'') (turn_of forked_state)))))) = [''root'', ''agent_core'', ''mem_readme''] \<and>
   tr_content (the (toolResponse (last (newHistory (processCall forked_state example_world
      (simCall ''start'') (turn_of forked_state)))))) =
     ''Simulation Runtime Started. You are now operating in a sandboxed copy.''"
  by code_simp

text \<open>
  Claim C6, as amended. A \<open>manage_simulation\<close> call with action \<open>start\<close> always sets the fork
  to a copy of the live store its render holds and marks the simulation active, whatever
  fork existed before; the live store and the store handed to the next phase are unchanged,
  and the result reports that the simulation was started.
\<close>

theorem C6_start_replaces_fork:
  assumes "call_name call = Some ''manage_simulation''"
    and "call_args call = Inr args"
    and "a_action args = Some ''start''"
  shows "simulatedProject (app (processCall render w call t)) = Some (project render) \<and>
         isSimulating (app (processCall render w call t)) \<and>
         project (app (processCall render w call t)) = project (app t) \<and>
         nextProject (processCall render w call t) = nextProject t \<and>
         triggeredSimulationChange (processCall render w call t) \<and>
         newHistory (processCall render w call t) =
           newHistory t @ [toolResponseMsg call
             ''Simulation Runtime Started. You are now operating in a sandboxed copy.'']"
  using assms
  by (simp add: processCall_def dispatchCall_def manage_simulation_def startSimulation_def
      deep_copy_def Let_def)

text \<open>Claim C6, witness: \<open>start\<close> in a state whose fork differs from the live store.\<close>

theorem C6_start_replaces_fork_witness:
  "call_name (simCall ''start'') = Some ''manage_simulation'' \<and>
   call_args (simCall ''start'') = Inr (noArgs\<lparr>a_action := Some ''start''\<rparr>) \<and>
   a_action (noArgs\<lparr>a_action := Some ''start''\<rparr>) = Some ''start'' \<and>
   simulatedProject forked_state \<noteq> Some example_project \<and>
   simulatedProject (app (processCall forked_state example_world (simCall ''start'')
      (turn_of forked_state))) = Some example_project \<and>
   isSimulating (app (processCall forked_state example_world (simCall ''start'')
      (turn_of forked_state)))"
proof -
  have c: "call_name (simCall ''start'') = Some ''manage_simulation''"
    "call_args (simCall ''start'') = Inr (noArgs\<lparr>a_action := Some ''start''\<rparr>)"
    "a_action (noArgs\<lparr>a_action := Some ''start''\<rparr>) = Some ''start''"
    by (simp_all add: simCall_def noArgs_def)
  have p: "project forked_state = example_project"
    by (simp add: forked_state_def)
  have d: "simulatedProject forked_state \<noteq> Some example_project"
    by (simp add: forked_state_def example_project_def delete_node_def)
  from C6_start_replaces_fork [OF c, of forked_state example_world "turn_of forked_state"] c p d
  show ?thesis by simp
qed

text \<open>
  Claim C1, at its failing input. A turn sent from a render without simulation: the first
  phase calls \<open>manage_simulation start\<close>, the second \<open>manage_node create\<close>. The second
  callback writes through \<open>setActiveProject\<close>, which still reads \<open>isSimulating = false\<close> of the
  render the turn began in, so the created node \<open>n\<close> is written to the live store while
  the simulation is active and the fork is left without it. Continued by \<open>abort\<close> and a
  second \<open>create\<close>, the live store holds both nodes although nothing was committed.
\<close>

theorem C1_fork_mutation_reaches_live_store:
  "isSimulating (app sandboxed_turn) \<and>
   simulatedProject (app sandboxed_turn) = Some example_project \<and>
   map fst (nodes (project (app sandboxed_turn))) = [''root'', ''agent_core'', ''mem_readme'', ''n''] \<and>
   \<not> isSimulating (app aborted_turn) \<and>
   map fst (nodes (project (app aborted_turn))) =
     [''root'', ''agent_core'', ''mem_readme'', ''n'', ''nx'']"
  by code_simp

text \<open>
  The same stale read in \<open>commitSimulation\<close>: in a turn sent outside a simulation, a
  \<open>commit\<close> that follows a \<open>start\<close> finds no fork and commits nothing.
\<close>

lemma commit_reads_fork_of_first_render:
  "(let t = handleSend live_state example_world
              [([], [simCall ''start'']), ([], [simCall ''commit''])] [] ''go'' None False
    in isSimulating (app t) \<and> simulatedProject (app t) = Some example_project \<and>
       project (app t) = example_project)"
  by code_simp

text \<open>
  \<open>handleSend\<close> ignores a blank input without image, and any input while a turn is in
  flight.
\<close>

lemma handleSend_guard:
  "handleSend live_state example_world [([], [simCall ''start''])] [] '' '' None False =
     turn_of live_state \<and>
   handleSend (live_state\<lparr>isLoading := True\<rparr>) example_world [([], [simCall ''start''])] [] ''go''
       None False =
     turn_of (live_state\<lparr>isLoading := True\<rparr>) \<and>
   map content (newHistory (handleSend live_state example_world [] [] [] (Some ''data:'') False)) =
     [newline @ ''(Image attached)'']"
  by code_simp

subsection \<open>Node management\<close>

text \<open>
  Claim C10. An update of an existing node with an empty \<open>name\<close> or \<open>code\<close> keeps the
  node's name or code; an empty \<open>content\<close> overwrites both \<open>systemInstruction\<close> and
  \<open>memoryContent\<close>; and whatever the arguments, a non-empty name stays non-empty and a
  non-empty code stays non-empty.
\<close>

theorem C10_update_falsy_fields:
  assumes "call_name call = Some ''manage_node''"
    and "call_args call = Inr args"
    and "a_action args = Some ''update''"
    and "get_node (nodes (nextProject t)) (show_str (a_nodeId args)) = Some node"
  shows "\<exists>node'.
           get_node (nodes (nextProject (processCall render w call t)))
             (show_str (a_nodeId args)) = Some node' \<and>
           (a_name args = Some [] \<longrightarrow> name node' = name node) \<and>
           (a_code args = Some [] \<longrightarrow> code node' = code node) \<and>
           (a_content args = Some [] \<longrightarrow>
              systemInstruction node' = Some [] \<and> memoryContent node' = Some []) \<and>
           (name node \<noteq> [] \<longrightarrow> name node' \<noteq> []) \<and>
           (truthy (code node) \<longrightarrow> truthy (code node'))"
  using assms
  by (auto simp: processCall_def dispatchCall_def manage_node_def manage_node_update_def
      Let_def get_node_set_node truthy_def or_else_def split: option.splits)

text \<open>Claim C10, witness: the three empty strings sent to the tool node of the example.\<close>

theorem C10_update_falsy_fields_witness:
  "call_name (updateCall ''tool_time'' clearArgs) = Some ''manage_node'' \<and>
   call_args (updateCall ''tool_time'' clearArgs) =
     Inr (clearArgs\<lparr>a_action := Some ''update'', a_nodeId := Some ''tool_time''\<rparr>) \<and>
   a_action (clearArgs\<lparr>a_action := Some ''update'', a_nodeId := Some ''tool_time''\<rparr>) =
     Some ''update'' \<and>
   a_name (clearArgs\<lparr>a_action := Some ''update'', a_nodeId := Some ''tool_time''\<rparr>) = Some [] \<and>
   a_code (clearArgs\<lparr>a_action := Some ''update'', a_nodeId := Some ''tool_time''\<rparr>) = Some [] \<and>
   a_content (clearArgs\<lparr>a_action := Some ''update'', a_nodeId := Some ''tool_time''\<rparr>) = Some [] \<and>
   get_node (nodes (nextProject (turn_of tool_state))) ''tool_time'' = Some time_tool \<and>
   (\<exists>node'. get_node (nodes (nextProject (processCall tool_state example_world
                (updateCall ''tool_time'' clearArgs) (turn_of tool_state)))) ''tool_time'' = Some node' \<and>
            name node' = ''Get Time'' \<and> code node' = Some ''return 42;'' \<and>
            systemInstruction node' = Some [] \<and> memoryContent node' = Some [])"
proof -
  let ?args = "clearArgs\<lparr>a_action := Some ''update'', a_nodeId := Some ''tool_time''\<rparr>"
  have c: "call_name (updateCall ''tool_time'' clearArgs) = Some ''manage_node''"
    "call_args (updateCall ''tool_time'' clearArgs) = Inr ?args"
    "a_action ?args = Some ''update''"
    "a_name ?args = Some []"
    "a_code ?args = Some []"
    "a_content ?args = Some []"
    "show_str (a_nodeId ?args) = ''tool_time''"
    by (simp_all add: updateCall_def clearArgs_def noArgs_def show_str_def)
  have g: "get_node (nodes (nextProject (turn_of tool_state))) ''tool_time'' = Some time_tool"
    by code_simp
  have n: "name time_tool = ''Get Time''" "code time_tool = Some ''return 42;''"
    by (simp_all add: time_tool_def mkNode_def)
  from C10_update_falsy_fields [of "updateCall ''tool_time'' clearArgs" ?args "turn_of tool_state"
      time_tool tool_state example_world] c g n
  show ?thesis by (auto simp: truthy_def)
qed

text \<open>
  Claim C7, at its failing input. \<open>manage_node update\<close> assigns \<open>args.parentId\<close> unchecked
  (\<open>create\<close> checks that the parent exists, and the inspector does not offer a node as its
  own parent): making \<open>agent_core\<close> its own parent is reported as a success and leaves a
  store that violates the invariant.
\<close>

theorem C7_update_breaks_tree_invariant:
  "tree_invariant example_project \<and> store_ok (nodes example_project) \<and>
   \<not> tree_invariant (nextProject (processCall live_state example_world
        (updateCall ''agent_core'' (noArgs\<lparr>a_parentId := Some ''agent_core''\<rparr>))
        (turn_of live_state))) \<and>
   tr_content (the (toolResponse (last (newHistory (processCall live_state example_world
        (updateCall ''agent_core'' (noArgs\<lparr>a_parentId := Some ''agent_core''\<rparr>))
        (turn_of live_state)))))) = ''Success. Node agent_core updated.''"
  by code_simp

text \<open>
  The inspector rejects the node itself and its children as its parent, but offers a
  grandchild; deleting the root through \<open>manage_node\<close> is accepted; and the parent check
  of \<open>create\<close> passes for a key the store only inherits, such as \<open>constructor\<close>, which
  leaves a node whose parent is no node.
\<close>

lemma inspector_grandchild_cycle:
  "tree_invariant chain_project \<and>
   (case inspector_set_parent chain_project (mkNode ''a'' AGENT ''A'' (Some ''root'')) ''c'' of
      None \<Rightarrow> False | Some p \<Rightarrow> \<not> tree_invariant p) \<and>
   inspector_set_parent chain_project (mkNode ''a'' AGENT ''A'' (Some ''root'')) ''a'' = None \<and>
   inspector_set_parent chain_project (mkNode ''a'' AGENT ''A'' (Some ''root'')) ''b'' = None"
  by code_simp

lemma delete_root_breaks:
  "\<not> tree_invariant (nextProject (processCall live_state example_world
        \<lparr>call_name = Some ''manage_node'',
         call_args = Inr (noArgs\<lparr>a_action := Some ''delete'', a_nodeId := Some ''root''\<rparr>)\<rparr>
        (turn_of live_state)))"
  by code_simp

lemma create_under_inherited_key_breaks:
  "\<not> tree_invariant (nextProject (processCall live_state example_world
        \<lparr>call_name = Some ''manage_node'',
         call_args = Inr (noArgs\<lparr>a_action := Some ''create'', a_type := Some MEMORY,
                                  a_parentId := Some ''constructor''\<rparr>)\<rparr>
        (turn_of live_state))) \<and>
   tr_content (the (toolResponse (last (newHistory (processCall live_state example_world
        \<lparr>call_name = Some ''manage_node'',
         call_args = Inr (noArgs\<lparr>a_action := Some ''create'', a_type := Some MEMORY,
                                  a_parentId := Some ''constructor''\<rparr>)\<rparr>
        (turn_of live_state)))))) = ''Success. Node created with ID: n''"
  by code_simp

subsection \<open>Tool resolution\<close>

lemma find_retype:
  "find (\<lambda>n. Some (sanitizeName (name n)) = nm)
     (map (snd \<circ> (\<lambda>e. (fst e, (snd e)\<lparr>node_type := f (snd e)\<rparr>))) ns) =
   map_option (\<lambda>n. n\<lparr>node_type := f n\<rparr>)
     (find (\<lambda>n. Some (sanitizeName (name n)) = nm) (map snd ns))"
  by (induction ns) auto

lemma findTarget_retype:
  "findTarget (retype f p) nm = map_option (\<lambda>n. n\<lparr>node_type := f n\<rparr>) (findTarget p nm)"
  by (simp add: findTarget_def retype_def values_of_def find_retype)

text \<open>
  Claim C8, counterexample. The lookup has no filter on the type: the call \<open>Orchestrator\<close>
  selects the agent of that name and the call \<open>ARCHITECTURE_md\<close> the memory
  \<open>ARCHITECTURE.md\<close>, which is then run as a script (it has no code, so the default source
  is run).
\<close>

theorem C8_counterexample:
  "map_option node_type (findTarget example_project (call_name (toolCall ''Orchestrator''))) =
     Some (Some AGENT) \<and>
   map_option node_type (findTarget example_project (call_name (toolCall ''ARCHITECTURE_md''))) =
     Some (Some MEMORY) \<and>
   tr_content (the (toolResponse (last (newHistory (processCall live_state example_world
      (toolCall ''ARCHITECTURE_md'') (turn_of live_state)))))) =
     ''No code defined''"
  by code_simp

text \<open>
  Claim C8, as amended. A call that names neither administrative tool is resolved against
  all nodes of the store in flight: the first node in store order whose sanitized name is
  the call's name is run, whatever its type (rewriting the types of the store does not
  change which node is found), and the turn goes on with the result of the run appended
  and nothing else changed, unless the run throws \<open>null\<close> or \<open>undefined\<close>, which leaves the
  loop; when no node matches, the turn goes on with the error text appended as the tool
  result and nothing else changed.
\<close>

theorem C8_resolution_ignores_node_type:
  assumes "call_name call \<noteq> Some ''manage_simulation''"
    and "call_name call \<noteq> Some ''manage_node''"
  shows "processCall render w call t =
           (case find (\<lambda>n. Some (sanitizeName (name n)) = call_name call)
                   (values_of (nodes (nextProject t))) of
              Some targetNode \<Rightarrow>
                (case runTarget w call targetNode of
                   Inr result \<Rightarrow> t\<lparr>newHistory := newHistory t @ [toolResponseMsg call result]\<rparr>
                 | Inl e \<Rightarrow> t\<lparr>escaped := Some e\<rparr>)
            | None \<Rightarrow>
                t\<lparr>newHistory := newHistory t @ [toolResponseMsg call
                     (''[System] Error: Tool definition '' @ apos @ show_str (call_name call) @
                      apos @ '' not found in active registry.'')]\<rparr>) \<and>
         findTarget (retype f (nextProject t)) (call_name call) =
           map_option (\<lambda>n. n\<lparr>node_type := f n\<rparr>) (findTarget (nextProject t) (call_name call))"
  using assms
  by (simp add: processCall_def dispatchCall_def runtime_executor_def findTarget_retype Let_def
      findTarget_def [symmetric] split: option.splits sum.splits)

text \<open>Claim C8, witness: a call that resolves to the tool, and one that resolves to nothing.\<close>

theorem C8_resolution_ignores_node_type_witness:
  "call_name (toolCall ''Get_Time'') \<noteq> Some ''manage_simulation'' \<and>
   call_name (toolCall ''Get_Time'') \<noteq> Some ''manage_node'' \<and>
   newHistory (processCall tool_state example_world (toolCall ''Get_Time'') (turn_of tool_state)) =
     [toolResponseMsg (toolCall ''Get_Time'') ''42''] \<and>
   newHistory (processCall tool_state example_world (toolCall ''Nothing'') (turn_of tool_state)) =
     [toolResponseMsg (toolCall ''Nothing'')
        (''[System] Error: Tool definition '' @ apos @ ''Nothing'' @ apos @
         '' not found in active registry.'')]"
proof -
  have c: "call_name (toolCall ''Get_Time'') \<noteq> Some ''manage_simulation''"
    "call_name (toolCall ''Get_Time'') \<noteq> Some ''manage_node''"
    "call_name (toolCall ''Nothing'') \<noteq> Some ''manage_simulation''"
    "call_name (toolCall ''Nothing'') \<noteq> Some ''manage_node''"
    by (simp_all add: toolCall_def)
  have f1: "find (\<lambda>n. Some (sanitizeName (name n)) = call_name (toolCall ''Get_Time''))
              (values_of (nodes (nextProject (turn_of tool_state)))) = Some time_tool"
    by code_simp
  have r1: "runTarget example_world (toolCall ''Get_Time'') time_tool = Inr ''42''"
    by code_simp
  have f2: "find (\<lambda>n. Some (sanitizeName (name n)) = call_name (toolCall ''Nothing''))
              (values_of (nodes (nextProject (turn_of tool_state)))) = None"
    by code_simp
  have s2: "show_str (call_name (toolCall ''Nothing'')) = ''Nothing''"
    by (simp add: toolCall_def show_str_def)
  have h: "newHistory (turn_of tool_state) = []" by (simp add: turn_of_def)
  from C8_resolution_ignores_node_type [OF c(1,2), of tool_state example_world "turn_of tool_state"]
       C8_resolution_ignores_node_type [OF c(3,4), of tool_state example_world "turn_of tool_state"]
       c f1 r1 f2 s2 h
  show ?thesis by simp
qed

subsection \<open>The universal driver\<close>

lemma split_nl_nonempty: "split_nl s \<noteq> []"
  by (induction s) (auto split: list.splits)

lemma split_nl_append:
  "split_nl (a @ b) = butlast (split_nl a) @ split_nl (last (split_nl a) @ b)"
proof (induction a)
  case Nil
  show ?case by simp
next
  case (Cons c cs)
  show ?case
  proof (cases "c = CHR 0x0A")
    case True
    with Cons show ?thesis by (simp add: split_nl_nonempty)
  next
    case False
    obtain l ls where s: "split_nl cs = l # ls"
      using split_nl_nonempty [of cs] by (cases "split_nl cs") auto
    show ?thesis
    proof (cases ls)
      case Nil
      with s False Cons show ?thesis by simp
    next
      case (Cons l' ls')
      with s False Cons.IH show ?thesis by simp
    qed
  qed
qed

lemma frags_of_lines_append:
  "frags_of_lines decode (xs @ ys) = frags_of_lines decode xs @ frags_of_lines decode ys"
  by (simp add: frags_of_lines_def List.map_filter_def)

lemma texts_of_lines_append:
  "texts_of_lines decode (xs @ ys) = texts_of_lines decode xs @ texts_of_lines decode ys"
  by (simp add: texts_of_lines_def List.map_filter_def)

lemma processLine_eq:
  "processLine decode line s =
     s\<lparr>toolCallBuffer := fold applyToolCall (frags_of_lines decode [line]) (toolCallBuffer s),
       chunks_out := chunks_out s @ texts_of_lines decode [line]\<rparr>"
  by (simp add: processLine_def line_delta_def frags_of_lines_def texts_of_lines_def
      applyDelta_def List.map_filter_simps Let_def split: option.splits)

lemma fold_processLine:
  "fold (processLine decode) ls s =
     s\<lparr>toolCallBuffer := fold applyToolCall (frags_of_lines decode ls) (toolCallBuffer s),
       chunks_out := chunks_out s @ texts_of_lines decode ls\<rparr>"
proof (induction ls arbitrary: s)
  case Nil
  show ?case by (simp add: frags_of_lines_def texts_of_lines_def List.map_filter_simps)
next
  case (Cons l ls)
  have "fold (processLine decode) (l # ls) s = fold (processLine decode) ls (processLine decode l s)"
    by simp
  also have "\<dots> = (processLine decode l s)
      \<lparr>toolCallBuffer := fold applyToolCall (frags_of_lines decode ls)
           (toolCallBuffer (processLine decode l s)),
       chunks_out := chunks_out (processLine decode l s) @ texts_of_lines decode ls\<rparr>"
    by (rule Cons.IH)
  also have "\<dots> = s\<lparr>toolCallBuffer := fold applyToolCall (frags_of_lines decode (l # ls)) (toolCallBuffer s),
       chunks_out := chunks_out s @ texts_of_lines decode (l # ls)\<rparr>"
    using frags_of_lines_append [of decode "[l]" ls] texts_of_lines_append [of decode "[l]" ls]
    by (simp add: processLine_eq)
  finally show ?case .
qed

lemma split_nl_no_newline: "CHR 0x0A \<notin> set s \<Longrightarrow> split_nl s = [s]"
  by (induction s) auto

lemma last_split_nl_no_newline: "CHR 0x0A \<notin> set (last (split_nl s))"
proof (induction s)
  case Nil
  show ?case by simp
next
  case (Cons c cs)
  obtain l ls where s: "split_nl cs = l # ls"
    using split_nl_nonempty [of cs] by (cases "split_nl cs") auto
  with Cons show ?case by (cases ls) auto
qed

lemma fold_processChunk:
  "CHR 0x0A \<notin> set (buffer s) \<Longrightarrow> fold (processChunk decode) chunks s =
     \<lparr>buffer = last (split_nl (buffer s @ concat chunks)),
      toolCallBuffer = fold applyToolCall
         (frags_of_lines decode (butlast (split_nl (buffer s @ concat chunks)))) (toolCallBuffer s),
      chunks_out = chunks_out s @
         texts_of_lines decode (butlast (split_nl (buffer s @ concat chunks)))\<rparr>"
proof (induction chunks arbitrary: s)
  case Nil
  then show ?case
    by (simp add: split_nl_no_newline frags_of_lines_def texts_of_lines_def List.map_filter_simps)
next
  case (Cons c cs)
  let ?s1 = "processChunk decode c s"
  let ?ls = "split_nl (buffer s @ c)"
  have s1: "?s1 = \<lparr>buffer = last ?ls,
      toolCallBuffer = fold applyToolCall (frags_of_lines decode (butlast ?ls)) (toolCallBuffer s),
      chunks_out = chunks_out s @ texts_of_lines decode (butlast ?ls)\<rparr>"
    by (simp add: processChunk_def Let_def fold_processLine)
  have sp: "split_nl (buffer s @ c @ concat cs) = butlast ?ls @ split_nl (last ?ls @ concat cs)"
    using split_nl_append [of "buffer s @ c" "concat cs"] by simp
  have bl: "butlast (split_nl (buffer s @ concat (c # cs))) =
      butlast ?ls @ butlast (split_nl (last ?ls @ concat cs))"
    by (simp add: sp butlast_append split_nl_nonempty)
  have la: "last (split_nl (buffer s @ concat (c # cs))) = last (split_nl (last ?ls @ concat cs))"
    by (simp add: sp split_nl_nonempty)
  have "fold (processChunk decode) (c # cs) s = fold (processChunk decode) cs ?s1" by simp
  also have "\<dots> = \<lparr>buffer = last (split_nl (buffer ?s1 @ concat cs)),
      toolCallBuffer = fold applyToolCall
         (frags_of_lines decode (butlast (split_nl (buffer ?s1 @ concat cs)))) (toolCallBuffer ?s1),
      chunks_out = chunks_out ?s1 @
         texts_of_lines decode (butlast (split_nl (buffer ?s1 @ concat cs)))\<rparr>"
    by (rule Cons.IH) (simp add: s1 last_split_nl_no_newline)
  also have "\<dots> = \<lparr>buffer = last (split_nl (buffer s @ concat (c # cs))),
      toolCallBuffer = fold applyToolCall
         (frags_of_lines decode (butlast (split_nl (buffer s @ concat (c # cs))))) (toolCallBuffer s),
      chunks_out = chunks_out s @
         texts_of_lines decode (butlast (split_nl (buffer s @ concat (c # cs))))\<rparr>"
    unfolding bl la by (simp add: s1 frags_of_lines_append texts_of_lines_append)
  finally show ?case .
qed


lemma bufferUpdate_insKey: "map fst (bufferUpdate buf idx g) = insKey (map fst buf) idx"
  by (induction buf idx g rule: bufferUpdate.induct) auto

lemma set_insKey: "set (insKey ks i) = insert i (set ks)"
  by (induction ks) auto

lemma indexBefore_later:
  "indexBefore i k \<Longrightarrow> k \<noteq> j \<Longrightarrow> \<not> indexBefore j k \<Longrightarrow> i \<noteq> j \<and> \<not> indexBefore j i"
  by (cases "isIndex k"; cases "isIndex j") (auto simp: indexBefore_def)

lemma indexBefore_asym: "indexBefore i k \<Longrightarrow> i \<noteq> k \<and> \<not> indexBefore k i"
  by (cases "isIndex k") (auto simp: indexBefore_def)

lemma listed_insKey: "listed ks \<Longrightarrow> listed (insKey ks i)"
proof (induction ks)
  case Nil
  show ?case by simp
next
  case (Cons k ks)
  from Cons.prems have l: "list_all (\<lambda>j. k \<noteq> j \<and> \<not> indexBefore j k) ks" and ls: "listed ks"
    by simp_all
  show ?case
  proof (cases "k = i")
    case True
    with Cons.prems show ?thesis by simp
  next
    case False
    show ?thesis
    proof (cases "indexBefore i k")
      case True
      have "list_all (\<lambda>j. i \<noteq> j \<and> \<not> indexBefore j i) ks"
        unfolding list_all_iff
      proof
        fix j assume "j \<in> set ks"
        with l have "k \<noteq> j" "\<not> indexBefore j k" by (simp_all add: list_all_iff)
        from indexBefore_later [OF True this] show "i \<noteq> j \<and> \<not> indexBefore j i" .
      qed
      with indexBefore_asym [OF True] Cons.prems True False show ?thesis by simp
    next
      case nb: False
      have "list_all (\<lambda>j. k \<noteq> j \<and> \<not> indexBefore j k) (insKey ks i)"
        using l nb False by (simp add: list_all_iff set_insKey)
      with Cons.IH [OF ls] False nb show ?thesis by simp
    qed
  qed
qed

lemma listed_distinct: "listed ks \<Longrightarrow> distinct ks"
  by (induction ks) (auto simp: list_all_iff)

lemma listed_not_later:
  "listed (k # ks) \<Longrightarrow> indexBefore i k \<Longrightarrow> i \<notin> set ks"
  by (auto simp: list_all_iff indexBefore_def split: if_splits)

lemma bufferUpdate_acc_at:
  "listed (map fst buf) \<Longrightarrow>
     acc_at (bufferUpdate buf idx g) i = (if i = idx then g (acc_at buf idx) else acc_at buf i)"
proof (induction buf idx g rule: bufferUpdate.induct)
  case (1 idx g)
  show ?case by (simp add: acc_at_def)
next
  case (2 k a rest idx g)
  show ?case
  proof (cases "k = idx")
    case True
    then show ?thesis by (simp add: acc_at_def)
  next
    case False
    show ?thesis
    proof (cases "indexBefore idx k")
      case True
      with "2.prems" have "idx \<notin> set (map fst rest)"
        using listed_not_later [of k "map fst rest" idx] by simp
      then have "map_of rest idx = None" by (simp add: map_of_eq_None_iff)
      with True False show ?thesis by (simp add: acc_at_def)
    next
      case ge: False
      with False "2.prems" have "acc_at (bufferUpdate rest idx g) i =
          (if i = idx then g (acc_at rest idx) else acc_at rest i)"
        using "2.IH" by simp
      with False ge show ?thesis by (auto simp: acc_at_def)
    qed
  qed
qed

lemma sls_idem: "sorted xs \<Longrightarrow> distinct xs \<Longrightarrow> sorted_list_of_set (set xs) = (xs::nat list)"
  by (rule sorted_list_of_set.idem_if_sorted_distinct)

lemma insKey_big:
  "\<not> isIndex i \<Longrightarrow> insKey ks i = (if i \<in> set ks then ks else ks @ [i])"
  by (induction ks) (auto simp: indexBefore_def)

lemma insKey_index:
  "isIndex i \<Longrightarrow> sorted_wrt (<) s \<Longrightarrow> \<forall>x\<in>set s. isIndex x \<Longrightarrow> \<forall>x\<in>set b. \<not> isIndex x \<Longrightarrow>
     insKey (s @ b) i = sorted_list_of_set (insert i (set s)) @ b"
proof (induction s)
  case Nil
  then show ?case by (cases b) (auto simp: indexBefore_def)
next
  case (Cons x s)
  have sd: "sorted (x # s)" "distinct (x # s)"
    using Cons.prems(2) strict_sorted_iff [of "x # s"] by auto
  show ?case
  proof (cases "x = i")
    case True
    have "sorted_list_of_set (set (x # s)) = x # s"
      by (rule sls_idem [OF sd])
    moreover have "insert i (set (x # s)) = set (x # s)" using True by auto
    ultimately have "sorted_list_of_set (insert i (set (x # s))) = x # s" by (simp only:)
    moreover have "insKey ((x # s) @ b) i = x # s @ b" using True by simp
    ultimately show ?thesis by (simp only: append_Cons)
  next
    case False
    show ?thesis
    proof (cases "i < x")
      case True
      have "sorted (i # x # s)" "distinct (i # x # s)"
        using True Cons.prems(2) sd by auto
      then have "sorted_list_of_set (set (i # x # s)) = i # x # s"
        by (rule sls_idem)
      moreover have "insert i (set (x # s)) = set (i # x # s)" by auto
      ultimately have e: "sorted_list_of_set (insert i (set (x # s))) = i # x # s" by (simp only:)
      have "insKey ((x # s) @ b) i = i # x # s @ b"
        using True False Cons.prems(1,3) by (simp add: indexBefore_def)
      with e show ?thesis by (simp only: append_Cons)
    next
      case ge: False
      from Cons.prems have ih: "insKey (s @ b) i = sorted_list_of_set (insert i (set s)) @ b"
        by (intro Cons.IH) auto
      define A where "A = insert i (set s)"
      have fin: "finite A" by (simp add: A_def)
      let ?l = "sorted_list_of_set A"
      have l: "set ?l = A" "sorted ?l" "distinct ?l" using fin by simp_all
      have "\<forall>y\<in>A. x < y" using Cons.prems(2) ge False by (auto simp: A_def)
      then have "sorted (x # ?l)" "distinct (x # ?l)" using l by (auto simp: less_imp_le)
      then have "sorted_list_of_set (set (x # ?l)) = x # ?l"
        by (rule sls_idem)
      moreover have "set (x # ?l) = insert i (set (x # s))" using l(1) by (auto simp: A_def)
      ultimately have e: "sorted_list_of_set (insert i (set (x # s))) = x # ?l" by (simp only:)
      have "insKey ((x # s) @ b) i = x # insKey (s @ b) i"
        using False ge Cons.prems(1,3) by (simp add: indexBefore_def)
      with e ih show ?thesis by (simp only: append_Cons A_def)
    qed
  qed
qed

lemma insKey_listing_order: "insKey (listing_order ks) i = listing_order (ks @ [i])"
proof (cases "isIndex i")
  case True
  let ?s = "sorted_list_of_set (set (filter isIndex ks))"
  let ?b = "rev (remdups (rev (filter (\<lambda>k. \<not> isIndex k) ks)))"
  have "sorted_wrt (<) ?s" by (simp add: strict_sorted_iff)
  moreover have "\<forall>x\<in>set ?s. isIndex x" by simp
  moreover have "\<forall>x\<in>set ?b. \<not> isIndex x" by simp
  ultimately have "insKey (?s @ ?b) i = sorted_list_of_set (insert i (set ?s)) @ ?b"
    by (rule insKey_index [OF True])
  moreover have "insert i (set ?s) = set (filter isIndex (ks @ [i]))" using True by auto
  moreover have "filter (\<lambda>k. \<not> isIndex k) (ks @ [i]) = filter (\<lambda>k. \<not> isIndex k) ks"
    using True by simp
  ultimately show ?thesis by (simp only: listing_order_def)
next
  case False
  let ?s = "sorted_list_of_set (set (filter isIndex ks))"
  let ?b = "rev (remdups (rev (filter (\<lambda>k. \<not> isIndex k) ks)))"
  have "i \<notin> set ?s" using False by auto
  with insKey_big [OF False, of "?s @ ?b"] False show ?thesis
    by (auto simp: listing_order_def)
qed

lemma fold_insKey: "fold (\<lambda>i ks. insKey ks i) is (listing_order ks) = listing_order (ks @ is)"
proof (induction "is" arbitrary: ks)
  case Nil
  show ?case by simp
next
  case (Cons i "is")
  show ?case using Cons.IH [of "ks @ [i]"] by (simp add: insKey_listing_order)
qed

lemma arguments_at_Cons:
  "arguments_at i (tc # frags) =
     (if tc_index tc = i \<and> truthy (fn_arguments tc) then the (fn_arguments tc) else []) @
     arguments_at i frags"
  by (auto simp: arguments_at_def truthy_def split: option.splits)

lemma name_at_Cons:
  "name_at i (tc # frags) =
     (case name_at i frags of
        Some n \<Rightarrow> Some n
      | None \<Rightarrow> if tc_index tc = i \<and> truthy (fn_name tc) then fn_name tc else None)"
proof -
  let ?l = "filter truthy (map fn_name (filter (\<lambda>tc. tc_index tc = i) frags))"
  have some: "\<And>x xs. ?l = x # xs \<Longrightarrow> \<exists>n. last (x # xs) = Some n"
  proof -
    fix x xs assume e: "?l = x # xs"
    have "last (x # xs) \<in> set ?l" unfolding e by (rule last_in_set) simp
    then have "truthy (last (x # xs))" by simp
    then show "\<exists>n. last (x # xs) = Some n"
      by (cases "last (x # xs)") (simp_all add: truthy_def)
  qed
  show ?thesis
  proof (cases ?l)
    case Nil
    then show ?thesis by (auto simp: name_at_def truthy_def split: option.splits)
  next
    case (Cons x xs)
    from some [OF Cons] obtain n where n: "last (x # xs) = Some n" by blast
    with Cons show ?thesis by (auto simp: name_at_def)
  qed
qed

lemma fold_applyToolCall:
  "listed (map fst buf0) \<Longrightarrow>
     listed (map fst (fold applyToolCall frags buf0)) \<and>
     map fst (fold applyToolCall frags buf0) =
       fold (\<lambda>i ks. insKey ks i) (map tc_index frags) (map fst buf0) \<and>
     acc_arguments (acc_at (fold applyToolCall frags buf0) i) =
       acc_arguments (acc_at buf0 i) @ arguments_at i frags \<and>
     acc_name (acc_at (fold applyToolCall frags buf0) i) =
       (case name_at i frags of None \<Rightarrow> acc_name (acc_at buf0 i) | Some n \<Rightarrow> Some n)"
proof (induction frags arbitrary: buf0)
  case Nil
  then show ?case by (simp add: arguments_at_def name_at_def)
next
  case (Cons tc frags)
  let ?b = "applyToolCall tc buf0"
  have k: "map fst ?b = insKey (map fst buf0) (tc_index tc)"
    by (simp add: applyToolCall_def bufferUpdate_insKey)
  have l: "listed (map fst ?b)"
    unfolding k by (rule listed_insKey [OF Cons.prems])
  have a: "acc_at ?b i = (if i = tc_index tc then addFragment tc (acc_at buf0 (tc_index tc)) else acc_at buf0 i)"
    using bufferUpdate_acc_at [OF Cons.prems] by (simp add: applyToolCall_def)
  have f: "fold applyToolCall (tc # frags) buf0 = fold applyToolCall frags ?b" by simp
  have i1: "listed (map fst (fold applyToolCall frags ?b))"
    and i2: "map fst (fold applyToolCall frags ?b) =
       fold (\<lambda>i ks. insKey ks i) (map tc_index frags) (map fst ?b)"
    and i3: "acc_arguments (acc_at (fold applyToolCall frags ?b) i) =
       acc_arguments (acc_at ?b i) @ arguments_at i frags"
    and i4: "acc_name (acc_at (fold applyToolCall frags ?b) i) =
       (case name_at i frags of None \<Rightarrow> acc_name (acc_at ?b i) | Some n \<Rightarrow> Some n)"
    using Cons.IH [OF l] by blast+
  have k2: "fold (\<lambda>i ks. insKey ks i) (map tc_index (tc # frags)) (map fst buf0) =
       fold (\<lambda>i ks. insKey ks i) (map tc_index frags) (map fst ?b)"
    by (simp add: k)
  have a3: "acc_arguments (acc_at (fold applyToolCall frags ?b) i) =
       acc_arguments (acc_at buf0 i) @ arguments_at i (tc # frags)"
    unfolding i3 a by (simp add: arguments_at_Cons addFragment_def)
  have a4: "acc_name (acc_at (fold applyToolCall frags ?b) i) =
       (case name_at i (tc # frags) of None \<Rightarrow> acc_name (acc_at buf0 i) | Some n \<Rightarrow> Some n)"
    unfolding i4 a
    by (auto simp: name_at_Cons addFragment_def truthy_def split: option.splits)
  show ?case unfolding f k2 using i1 i2 a3 a4 by (intro conjI)
qed

lemma buffer_entries:
  assumes "listed (map fst buf)" and "e \<in> set buf"
  shows "snd e = acc_at buf (fst e)"
proof -
  from assms(1) have "distinct (map fst buf)"
    by (rule listed_distinct)
  with assms(2) have "map_of buf (fst e) = Some (snd e)" by simp
  then show ?thesis by (simp add: acc_at_def)
qed

lemma map_filter_cong_set:
  "(\<And>x. x \<in> set xs \<Longrightarrow> f x = g x) \<Longrightarrow> List.map_filter f xs = List.map_filter g xs"
  by (induction xs) (auto simp: List.map_filter_simps split: option.splits)

lemma map_filter_comp: "List.map_filter (h \<circ> f) xs = List.map_filter h (map f xs)"
  by (induction xs) (auto simp: List.map_filter_simps split: option.splits)

lemma finalToolCalls_eq:
  assumes "buf = fold applyToolCall frags []"
  shows "finalToolCalls JSON_parse buf =
     List.map_filter (\<lambda>i. map_option (Pair (name_at i frags)) (JSON_parse (arguments_at i frags)))
       (listing_order (map tc_index frags))"
proof -
  have "listed (map fst ([]::(nat \<times> ToolCallAcc) list))" by simp
  from fold_applyToolCall [OF this, of frags] assms
  have s: "listed (map fst buf)"
    and k: "map fst buf = fold (\<lambda>i ks. insKey ks i) (map tc_index frags) (map fst ([]::(nat \<times> ToolCallAcc) list))"
    by blast+
  have "listing_order [] = []" by (simp add: listing_order_def)
  with fold_insKey [of "map tc_index frags" "[]"] k
  have keys: "map fst buf = listing_order (map tc_index frags)" by simp
  have each: "\<And>e. e \<in> set buf \<Longrightarrow>
      acc_arguments (snd e) = arguments_at (fst e) frags \<and> acc_name (snd e) = name_at (fst e) frags"
  proof -
    fix e assume e: "e \<in> set buf"
    have "snd e = acc_at buf (fst e)" by (rule buffer_entries [OF s e])
    with fold_applyToolCall [of "[]" frags "fst e"] assms have
      "acc_arguments (snd e) = acc_arguments (acc_at [] (fst e)) @ arguments_at (fst e) frags"
      "acc_name (snd e) = (case name_at (fst e) frags of None \<Rightarrow> acc_name (acc_at [] (fst e)) | Some n \<Rightarrow> Some n)"
      by simp_all
    then show
      "acc_arguments (snd e) = arguments_at (fst e) frags \<and> acc_name (snd e) = name_at (fst e) frags"
      by (auto simp: acc_at_def emptyAcc_def split: option.splits)
  qed
  have "finalToolCalls JSON_parse buf =
      List.map_filter ((\<lambda>i. map_option (Pair (name_at i frags)) (JSON_parse (arguments_at i frags))) \<circ> fst) buf"
    unfolding finalToolCalls_def
    by (rule map_filter_cong_set) (use each in \<open>auto split: option.splits\<close>)
  also have "\<dots> = List.map_filter (\<lambda>i. map_option (Pair (name_at i frags)) (JSON_parse (arguments_at i frags)))
       (map fst buf)"
    by (rule map_filter_comp)
  finally show ?thesis by (simp add: keys)
qed

text \<open>
  When every stream index is an array index, as the indices of a batch are, the listing
  order is the ascending order.
\<close>

lemma listing_order_indices:
  "list_all isIndex ks \<Longrightarrow> listing_order ks = sorted_list_of_set (set ks)"
proof -
  assume a: "list_all isIndex ks"
  then have "filter isIndex ks = ks" "filter (\<lambda>k. \<not> isIndex k) ks = []"
    by (simp_all add: list_all_iff)
  then show ?thesis by (simp add: listing_order_def)
qed

lemma readStream_eq:
  "readStream decode chunks =
     \<lparr>buffer = last (split_nl (concat chunks)),
      toolCallBuffer = fold applyToolCall (stream_fragments decode (concat chunks)) [],
      chunks_out = stream_texts decode (concat chunks)\<rparr>"
  by (simp add: readStream_def fold_processChunk stream_fragments_def stream_texts_def
      stream_lines_def)

text \<open>
  Claim C5. For a response with a body the driver never reports an error. The texts it
  forwards are the non-empty contents of the decoded lines, and the batch it emits holds,
  in the order in which the buffer lists its keys (ascending stream index; an index of
  \<open>2^32 - 1\<close> or more comes after these, in order of first arrival), one call for every
  index whose argument text parses, where the argument text of an index is the
  concatenation, in arrival order over the whole stream, of the argument slices of the
  fragments with that index: \<open>JSON_parse\<close> is applied to nothing else. An index whose text
  does not parse is left out; with no call left the turn completes normally.
\<close>

theorem C5_universal_driver_accumulation:
  "executeUniversalRequest JSON_parse decode (Body chunks) =
     (stream_texts decode (concat chunks),
      (let frags = stream_fragments decode (concat chunks);
           calls = List.map_filter
                     (\<lambda>i. map_option (Pair (name_at i frags)) (JSON_parse (arguments_at i frags)))
                     (listing_order (map tc_index frags))
       in if calls \<noteq> [] then OnToolCall calls else OnComplete))"
  by (simp add: executeUniversalRequest_def readStream_eq Let_def
      finalToolCalls_eq [OF refl, of JSON_parse "stream_fragments decode (concat chunks)"])

text \<open>
  Claim C5, witness: on the example stream the two slices at index 0 give the one call
  \<open>f\<close> with the object \<open>{a:1, b:2}\<close>, the call at index 1 is dropped, and the text of \<open>e3\<close> is
  forwarded.
\<close>

theorem C5_universal_driver_accumulation_witness:
  "executeUniversalRequest example_parse example_decode (Body example_chunks) =
     ([''thinking''], OnToolCall [(Some ''f'', JObj [(''a'', JNum 1), (''b'', JNum 2)])]) \<and>
   example_parse slice1 = None \<and> example_parse slice2 = None"
proof -
  let ?frags = "stream_fragments example_decode (concat example_chunks)"
  have i: "map tc_index ?frags = [0, 1, 0]"
    by code_simp
  have "sorted_list_of_set (set [0, 1::nat]) = [0, 1]"
    by (rule sls_idem) simp_all
  moreover have "set [0, 1, 0::nat] = set [0, 1]" by auto
  ultimately have "sorted_list_of_set (set [0, 1, 0::nat]) = [0, 1]" by (simp only:)
  then have o: "listing_order (map tc_index ?frags) = [0, 1]"
    unfolding i by (simp add: listing_order_def isIndex_def)
  have e: "(stream_texts example_decode (concat example_chunks),
      (if List.map_filter
            (\<lambda>i. map_option (Pair (name_at i ?frags)) (example_parse (arguments_at i ?frags)))
            [0, 1] \<noteq> []
       then OnToolCall (List.map_filter
            (\<lambda>i. map_option (Pair (name_at i ?frags)) (example_parse (arguments_at i ?frags)))
            [0, 1])
       else OnComplete)) =
     ([''thinking''], OnToolCall [(Some ''f'', JObj [(''a'', JNum 1), (''b'', JNum 2)])])"
    by code_simp
  have p: "example_parse slice1 = None" "example_parse slice2 = None"
    by code_simp+
  have "executeUniversalRequest example_parse example_decode (Body example_chunks) =
     (stream_texts example_decode (concat example_chunks),
      (if List.map_filter
            (\<lambda>i. map_option (Pair (name_at i ?frags)) (example_parse (arguments_at i ?frags)))
            [0, 1] \<noteq> []
       then OnToolCall (List.map_filter
            (\<lambda>i. map_option (Pair (name_at i ?frags)) (example_parse (arguments_at i ?frags)))
            [0, 1])
       else OnComplete))"
    using C5_universal_driver_accumulation [of example_parse example_decode example_chunks]
    unfolding Let_def o .
  with e p show ?thesis by (simp only: simp_thms)
qed

subsection \<open>The context assembler\<close>

lemma those_map_Some:
  "those (map f xs) = (if \<forall>x\<in>set xs. f x \<noteq> None then Some (map (the \<circ> f) xs) else None)"
  by (induction xs) (auto split: option.splits)

lemma dfs_Suc:
  "dfs (Suc d) ns k =
     (case get_node ns k of
        None \<Rightarrow> Some []
      | Some node \<Rightarrow>
          if \<forall>c\<in>set (children ns k). dfs d ns (node_id c) \<noteq> None
          then Some (node # concat (map (\<lambda>c. the (dfs d ns (node_id c))) (children ns k)))
          else None)"
  by (auto simp: those_map_Some comp_def split: option.splits)

lemma fold_option_None:
  "fold (\<lambda>c r. case r of None \<Rightarrow> None | Some x \<Rightarrow> g c x) cs None = None"
  by (induction cs) auto

lemma fold_children:
  assumes "\<And>k ctx. g k ctx = map_option (\<lambda>vs. fold h vs ctx) (t k)"
  shows "fold (\<lambda>c r. case r of None \<Rightarrow> None | Some x \<Rightarrow> g c x) cs (Some ctx) =
     (if \<forall>c\<in>set cs. t c \<noteq> None
      then Some (fold h (concat (map (\<lambda>c. the (t c)) cs)) ctx) else None)"
proof (induction cs arbitrary: ctx)
  case Nil
  show ?case by simp
next
  case (Cons c cs)
  show ?case
  proof (cases "t c")
    case None
    then show ?thesis by (simp add: assms fold_option_None)
  next
    case (Some vs)
    then show ?thesis by (simp add: assms Cons.IH)
  qed
qed

lemma get_node_id:
  assumes "store_ok ns" and "get_node ns k = Some n"
  shows "node_id n = k"
proof -
  from assms(2) have "(k, n) \<in> set ns" by (simp add: get_node_def map_of_SomeD)
  with assms(1) show ?thesis by (auto simp: store_ok_def list_all_iff)
qed

lemma traverse_dfs:
  assumes ok: "store_ok (nodes p)"
  shows "traverse d p a k ctx = map_option (\<lambda>vs. fold (visitIncluded p a) vs ctx) (dfs d (nodes p) k)"
proof (induction d arbitrary: k ctx)
  case 0
  show ?case by simp
next
  case (Suc d)
  show ?case
  proof (cases "get_node (nodes p) k")
    case None
    then show ?thesis by simp
  next
    case (Some node)
    have f: "fold (\<lambda>c r. case r of None \<Rightarrow> None | Some x \<Rightarrow> traverse d p a (node_id c) x)
               (children (nodes p) k) (Some ctx0) =
       (if \<forall>c\<in>set (children (nodes p) k). dfs d (nodes p) (node_id c) \<noteq> None
        then Some (fold (visitIncluded p a)
                (concat (map (\<lambda>c. the (dfs d (nodes p) (node_id c))) (children (nodes p) k))) ctx0)
        else None)" for ctx0
      by (rule fold_children [where g = "\<lambda>c. traverse d p a (node_id c)"
            and t = "\<lambda>c. dfs d (nodes p) (node_id c)"]) (rule Suc.IH)
    have v: "visitIncluded p a node ctx =
        (if shouldInclude p a k then visitNode node ctx else ctx)"
      using get_node_id [OF ok Some] by (simp add: visitIncluded_def)
    from Some show ?thesis
      by (simp add: f dfs_Suc v del: dfs.simps)
  qed
qed


lemma fold_visitIncluded:
  "fold (visitIncluded p a) vs ctx =
     (fst ctx @ concat (map block_of (filter (\<lambda>n. shouldInclude p a (node_id n)) vs)),
      snd ctx @ concat (map entries_of (filter (\<lambda>n. shouldInclude p a (node_id n)) vs)))"
  by (induction vs arbitrary: ctx)
     (auto simp: visitIncluded_def visitNode_def block_of_def entries_of_def)

lemma concat_entries_of:
  "concat (map entries_of vs) = map tool_entry (filter (\<lambda>n. node_type n = Some TOOL) vs)"
  by (induction vs) (auto simp: entries_of_def)

lemma collectContext_dfs:
  assumes "store_ok (nodes p)" and "get_node (nodes p) (rootNodeId p) \<noteq> None"
  shows "collectContext d p a =
     map_option
       (\<lambda>vs. (''Current Active System Stack:'' @ newline @
                 concat (map block_of (filter (\<lambda>n. shouldInclude p a (node_id n)) vs)),
               systemTools @
                 map tool_entry
                   (filter (\<lambda>n. shouldInclude p a (node_id n) \<and> node_type n = Some TOOL) vs)))
       (dfs d (nodes p) (rootNodeId p))"
  using assms(2)
  by (auto simp: collectContext_def traverse_dfs [OF assms(1)] fold_visitIncluded
      concat_entries_of conj_commute split: option.splits)


lemma get_node_value:
  assumes "store_ok ns" and "v \<in> set (values_of ns)"
  shows "get_node ns (node_id v) = Some v"
proof -
  from assms(2) obtain k where kv: "(k, v) \<in> set ns" by (auto simp: values_of_def)
  with assms(1) have "node_id v = k" by (auto simp: store_ok_def list_all_iff)
  moreover from assms(1) have "distinct (map fst ns)" by (simp add: store_ok_def)
  ultimately show ?thesis using kv by (simp add: get_node_def)
qed

lemma value_of_get_node: "get_node ns k = Some n \<Longrightarrow> n \<in> set (values_of ns)"
  by (auto simp: get_node_def values_of_def dest!: map_of_SomeD intro: rev_image_eqI)

lemma values_distinct:
  assumes "store_ok ns"
  shows "distinct (values_of ns)"
proof -
  have "inj_on snd (set ns)"
  proof (rule inj_onI)
    fix e e' assume e: "e \<in> set ns" "e' \<in> set ns" "snd e = snd e'"
    from assms e(1,2) have "node_id (snd e) = fst e" "node_id (snd e') = fst e'"
      by (auto simp: store_ok_def list_all_iff)
    with e(3) have "fst e = fst e'" by simp
    with e(3) show "e = e'" by (simp add: prod_eq_iff)
  qed
  moreover from assms have "distinct ns"
    by (auto simp: store_ok_def distinct_map)
  ultimately show ?thesis by (simp add: values_of_def distinct_map)
qed

lemma depth_of_mono:
  "depth_of f ns k = Some x \<Longrightarrow> f \<le> f' \<Longrightarrow> depth_of f' ns k = Some x"
proof (induction f arbitrary: f' k x)
  case 0
  then show ?case by simp
next
  case (Suc f)
  then obtain g where g: "f' = Suc g" "f \<le> g" by (cases f') auto
  from Suc.prems(1) Suc.IH [OF _ g(2)] show ?case
    unfolding g(1) by (auto split: option.splits)
qed

lemma depth_of_less: "depth_of f ns k = Some x \<Longrightarrow> x < f"
  by (induction f arbitrary: k x) (auto split: option.splits)

lemma child_depth:
  assumes "get_node ns c = Some n" and "parentId n = Some k"
    and "depth_of f ns c = Some y"
  shows "\<exists>x. y = Suc x \<and> depth_of f ns k = Some x"
proof -
  from assms(3) obtain g where g: "f = Suc g" by (cases f) auto
  with assms obtain x where x: "depth_of g ns k = Some x" "y = Suc x" by auto
  from depth_of_mono [OF x(1), of f] g x(2) show ?thesis by simp
qed

lemma up_add: "up i ns v = Some m \<Longrightarrow> up j ns m = Some k \<Longrightarrow> up (i + j) ns v = Some k"
  by (induction i arbitrary: v) (auto split: option.splits)

lemma up_depth:
  "up j ns v = Some k \<Longrightarrow> depth_of f ns v = Some x \<Longrightarrow> j \<le> x \<and> depth_of f ns k = Some (x - j)"
proof (induction j arbitrary: v x)
  case 0
  then show ?case by simp
next
  case (Suc j)
  from Suc.prems(1) obtain n p where n: "get_node ns v = Some n" "parentId n = Some p"
    "up j ns p = Some k" by (auto split: option.splits)
  from child_depth [OF n(1,2) Suc.prems(2)] obtain y where
    y: "x = Suc y" "depth_of f ns p = Some y" by blast
  from Suc.IH [OF n(3) y(2)] y(1) show ?case by simp
qed


lemma dfs_members:
  assumes ok: "store_ok ns"
  shows "dfs f ns k = Some vs \<Longrightarrow> v \<in> set vs \<Longrightarrow>
           v \<in> set (values_of ns) \<and> (\<exists>j. up j ns (node_id v) = Some k)"
proof (induction f arbitrary: k vs v)
  case 0
  then show ?case by simp
next
  case (Suc f)
  show ?case
  proof (cases "get_node ns k")
    case None
    with Suc.prems show ?thesis by simp
  next
    case (Some node)
    from Suc.prems(1) Some have
      all: "\<forall>c\<in>set (children ns k). dfs f ns (node_id c) \<noteq> None" and
      vs: "vs = node # concat (map (\<lambda>c. the (dfs f ns (node_id c))) (children ns k))"
      by (auto simp: dfs_Suc simp del: dfs.simps(2) split: if_splits)
    from Suc.prems(2) vs consider "v = node"
      | c where "c \<in> set (children ns k)" "v \<in> set (the (dfs f ns (node_id c)))"
      by auto
    then show ?thesis
    proof cases
      case 1
      have "up 0 ns (node_id node) = Some k" using get_node_id [OF ok Some] by simp
      with 1 value_of_get_node [OF Some] show ?thesis by blast
    next
      case 2
      from all 2(1) obtain l where l: "dfs f ns (node_id c) = Some l" by auto
      with 2(2) have "v \<in> set l" by simp
      from Suc.IH [OF l this] obtain j where
        j: "v \<in> set (values_of ns)" "up j ns (node_id v) = Some (node_id c)" by blast
      from 2(1) have c: "c \<in> set (values_of ns)" "parentId c = Some k"
        by (simp_all add: children_def)
      have "up (Suc 0) ns (node_id c) = Some k"
        using get_node_value [OF ok c(1)] c(2) by simp
      from up_add [OF j(2) this] j(1) show ?thesis by blast
    qed
  qed
qed

lemma dfs_head:
  "get_node ns k = Some node \<Longrightarrow> dfs f ns k = Some vs \<Longrightarrow> node \<in> set vs"
  by (cases f) (auto simp: dfs_Suc simp del: dfs.simps(2) split: if_splits)

lemma dfs_children_closed:
  assumes ok: "store_ok ns"
  shows "dfs f ns k = Some vs \<Longrightarrow> v \<in> set vs \<Longrightarrow> c \<in> set (values_of ns) \<Longrightarrow>
           parentId c = Some (node_id v) \<Longrightarrow> c \<in> set vs"
proof (induction f arbitrary: k vs v)
  case 0
  then show ?case by simp
next
  case (Suc f)
  show ?case
  proof (cases "get_node ns k")
    case None
    with Suc.prems show ?thesis by simp
  next
    case (Some node)
    from Suc.prems(1) Some have
      all: "\<forall>c\<in>set (children ns k). dfs f ns (node_id c) \<noteq> None" and
      vs: "vs = node # concat (map (\<lambda>c. the (dfs f ns (node_id c))) (children ns k))"
      by (auto simp: dfs_Suc simp del: dfs.simps(2) split: if_splits)
    from Suc.prems(2) vs consider "v = node"
      | c' where "c' \<in> set (children ns k)" "v \<in> set (the (dfs f ns (node_id c')))"
      by auto
    then show ?thesis
    proof cases
      case 1
      with Suc.prems(3,4) get_node_id [OF ok Some] have ch: "c \<in> set (children ns k)"
        by (simp add: children_def)
      with all obtain l where l: "dfs f ns (node_id c) = Some l" by auto
      from dfs_head [OF get_node_value [OF ok Suc.prems(3)] l] have "c \<in> set l" .
      with ch l vs show ?thesis by force
    next
      case 2
      from all 2(1) obtain l where l: "dfs f ns (node_id c') = Some l" by auto
      with 2(2) have "v \<in> set l" by simp
      from Suc.IH [OF l this Suc.prems(3,4)] have "c \<in> set l" .
      with 2(1) l vs show ?thesis by force
    qed
  qed
qed

lemma distinct_concat_map:
  assumes "distinct cs" and "\<And>c. c \<in> set cs \<Longrightarrow> distinct (g c)"
    and "\<And>c c'. c \<in> set cs \<Longrightarrow> c' \<in> set cs \<Longrightarrow> c \<noteq> c' \<Longrightarrow> set (g c) \<inter> set (g c') = {}"
  shows "distinct (concat (map g cs))"
  using assms
proof (induction cs)
  case Nil
  show ?case by simp
next
  case (Cons c cs)
  have "distinct (concat (map g cs))"
    using Cons.prems by (intro Cons.IH) auto
  moreover have "distinct (g c)" using Cons.prems(2) by simp
  moreover have "set (g c) \<inter> set (concat (map g cs)) = {}"
  proof -
    have "set (g c) \<inter> set (g c') = {}" if "c' \<in> set cs" for c'
      using Cons.prems(1) Cons.prems(3) [of c c'] that by auto
    then show ?thesis by auto
  qed
  ultimately show ?case by simp
qed

lemma dfs_distinct:
  assumes ok: "store_ok ns" and dp: "all_depths ns"
  shows "dfs f ns k = Some vs \<Longrightarrow> distinct vs"
proof (induction f arbitrary: k vs)
  case 0
  then show ?case by simp
next
  case (Suc f)
  let ?F = "length ns"
  show ?case
  proof (cases "get_node ns k")
    case None
    with Suc.prems show ?thesis by simp
  next
    case (Some node)
    let ?g = "\<lambda>c. the (dfs f ns (node_id c))"
    from Suc.prems(1) Some have
      all: "\<forall>c\<in>set (children ns k). dfs f ns (node_id c) \<noteq> None" and
      vs: "vs = node # concat (map ?g (children ns k))"
      by (auto simp: dfs_Suc simp del: dfs.simps(2) split: if_splits)
    have sub: "dfs f ns (node_id c) = Some (?g c)" if "c \<in> set (children ns k)" for c
      using all that by auto
    have depth: "\<exists>x. depth_of ?F ns (node_id v) = Some x" if "v \<in> set (values_of ns)" for v
      using dp that by (auto simp: all_depths_def list_all_iff)
    have chd: "\<exists>y. depth_of ?F ns (node_id c) = Some (Suc y) \<and> depth_of ?F ns k = Some y"
      if "c \<in> set (children ns k)" for c
    proof -
      from that have c: "c \<in> set (values_of ns)" "parentId c = Some k"
        by (simp_all add: children_def)
      from depth [OF c(1)] obtain x where x: "depth_of ?F ns (node_id c) = Some x" by blast
      from child_depth [OF get_node_value [OF ok c(1)] c(2) x] x show ?thesis by auto
    qed
    have below: "\<exists>j x. depth_of ?F ns (node_id v) = Some x \<and> j \<le> x \<and>
                    depth_of ?F ns (node_id c) = Some (x - j) \<and> up j ns (node_id v) = Some (node_id c)"
      if "c \<in> set (children ns k)" "v \<in> set (?g c)" for c v
    proof -
      from dfs_members [OF ok sub [OF that(1)] that(2)] obtain j where
        j: "v \<in> set (values_of ns)" "up j ns (node_id v) = Some (node_id c)" by blast
      from depth [OF j(1)] obtain x where x: "depth_of ?F ns (node_id v) = Some x" by blast
      from up_depth [OF j(2) x] x j(2) show ?thesis by blast
    qed
    have d1: "distinct (children ns k)"
      using values_distinct [OF ok] by (simp add: children_def)
    have d2: "distinct (?g c)" if "c \<in> set (children ns k)" for c
      using Suc.IH [OF sub [OF that]] .
    have d3: "set (?g c) \<inter> set (?g c') = {}"
      if "c \<in> set (children ns k)" "c' \<in> set (children ns k)" "c \<noteq> c'" for c c'
    proof (rule ccontr)
      assume "set (?g c) \<inter> set (?g c') \<noteq> {}"
      then obtain v where v: "v \<in> set (?g c)" "v \<in> set (?g c')" by auto
      from below [OF that(1) v(1)] obtain j x where
        a: "depth_of ?F ns (node_id v) = Some x" "j \<le> x"
           "depth_of ?F ns (node_id c) = Some (x - j)" "up j ns (node_id v) = Some (node_id c)"
        by blast
      from below [OF that(2) v(2)] obtain j' x' where
        b: "depth_of ?F ns (node_id v) = Some x'" "j' \<le> x'"
           "depth_of ?F ns (node_id c') = Some (x' - j')" "up j' ns (node_id v) = Some (node_id c')"
        by blast
      from chd [OF that(1)] chd [OF that(2)] a(3) b(3) have "x - j = x' - j'" by auto
      with a(1,2) b(1,2) have "j = j'" by simp
      with a(4) b(4) have ideq: "node_id c = node_id c'" by simp
      from that(1,2) have cv: "c \<in> set (values_of ns)" "c' \<in> set (values_of ns)"
        by (simp_all add: children_def)
      have "Some c = get_node ns (node_id c)"
        by (simp only: get_node_value [OF ok cv(1)])
      also have "\<dots> = get_node ns (node_id c')" by (simp only: ideq)
      also have "\<dots> = Some c'" by (simp only: get_node_value [OF ok cv(2)])
      finally have "c = c'" by (simp only: option.inject)
      with that(3) show False by (simp only: not_True_eq_False simp_thms)
    qed
    have d4: "node \<notin> set (?g c)" if "c \<in> set (children ns k)" for c
    proof
      assume "node \<in> set (?g c)"
      from below [OF that this] obtain j x where
        a: "depth_of ?F ns (node_id node) = Some x" "j \<le> x"
           "depth_of ?F ns (node_id c) = Some (x - j)"
        by blast
      from chd [OF that] a(3) obtain y where y: "x - j = Suc y" "depth_of ?F ns k = Some y"
        by auto
      with a(1) get_node_id [OF ok Some] have "x = y" by simp
      with y(1) show False by simp
    qed
    have "distinct (concat (map ?g (children ns k)))"
      by (rule distinct_concat_map [OF d1 d2 d3])
    with d4 vs show ?thesis by auto
  qed
qed

lemma dfs_terminates:
  assumes ok: "store_ok ns" and dp: "all_depths ns"
  shows "depth_of (length ns) ns k = Some x \<Longrightarrow> length ns \<le> f + x \<Longrightarrow> dfs f ns k \<noteq> None"
proof (induction f arbitrary: k x)
  case 0
  with depth_of_less [OF "0.prems"(1)] show ?case by simp
next
  case (Suc f)
  have "dfs f ns (node_id c) \<noteq> None" if "c \<in> set (children ns k)" for c
  proof -
    from that have c: "c \<in> set (values_of ns)" "parentId c = Some k"
      by (simp_all add: children_def)
    from dp c(1) obtain y where y: "depth_of (length ns) ns (node_id c) = Some y"
      by (auto simp: all_depths_def list_all_iff)
    from child_depth [OF get_node_value [OF ok c(1)] c(2) y] Suc.prems(1)
    have "y = Suc x" by auto
    with y Suc.prems(2) show ?thesis by (intro Suc.IH [of "node_id c" "Suc x"]) auto
  qed
  then show ?case by (auto simp: dfs_Suc simp del: dfs.simps(2) split: option.splits)
qed


lemma dfs_covers:
  assumes ok: "store_ok ns"
    and rt: "map node_id (filter (\<lambda>n. parentId n = None) (values_of ns)) = [r]"
    and vs: "dfs f ns r = Some vs"
  shows "depth_of (length ns) ns (node_id v) = Some x \<Longrightarrow> v \<in> set (values_of ns) \<Longrightarrow> v \<in> set vs"
proof (induction x arbitrary: v)
  case 0
  have g: "get_node ns (node_id v) = Some v" by (rule get_node_value [OF ok "0.prems"(2)])
  from "0.prems"(1) obtain F where F: "length ns = Suc F" by (cases "length ns") auto
  from "0.prems"(1) g have "parentId v = None"
    unfolding F by (auto split: option.splits)
  with "0.prems"(2) have "node_id v \<in> set (map node_id (filter (\<lambda>n. parentId n = None) (values_of ns)))"
    by auto
  with rt have "node_id v = r" by simp
  with g have "get_node ns r = Some v" by simp
  from dfs_head [OF this vs] show ?case .
next
  case (Suc x)
  have g: "get_node ns (node_id v) = Some v" by (rule get_node_value [OF ok Suc.prems(2)])
  from Suc.prems(1) obtain F where F: "length ns = Suc F" by (cases "length ns") auto
  from Suc.prems(1) g obtain pid where pid: "parentId v = Some pid"
    unfolding F by (auto split: option.splits)
  from child_depth [OF g pid Suc.prems(1)] have dp: "depth_of (length ns) ns pid = Some x" by simp
  then obtain pn where pn: "get_node ns pid = Some pn"
    unfolding F by (auto split: option.splits)
  have pv: "pn \<in> set (values_of ns)" by (rule value_of_get_node [OF pn])
  have pi: "node_id pn = pid" by (rule get_node_id [OF ok pn])
  from Suc.IH [OF _ pv] dp pi have "pn \<in> set vs" by simp
  from dfs_children_closed [OF ok vs this Suc.prems(2)] pid pi show ?case by simp
qed

lemma tree_root:
  assumes ok: "store_ok (nodes p)" and inv: "tree_invariant p"
  shows "\<exists>rn. get_node (nodes p) (rootNodeId p) = Some rn \<and> parentId rn = None \<and>
              depth_of (length (nodes p)) (nodes p) (rootNodeId p) = Some 0"
proof -
  from inv have rt: "map node_id (filter (\<lambda>n. parentId n = None) (values_of (nodes p))) = [rootNodeId p]"
    by (simp add: tree_invariant_def)
  then have "rootNodeId p \<in> node_id ` set (filter (\<lambda>n. parentId n = None) (values_of (nodes p)))"
    by (metis list.set_intros(1) set_map)
  then obtain rn where rn: "rn \<in> set (values_of (nodes p))" "parentId rn = None"
    "node_id rn = rootNodeId p" by auto
  have g: "get_node (nodes p) (rootNodeId p) = Some rn"
    using get_node_value [OF ok rn(1)] rn(3) by simp
  from rn(1) obtain F where F: "length (nodes p) = Suc F"
    by (cases "nodes p") (auto simp: values_of_def)
  from g rn(2) have "depth_of (length (nodes p)) (nodes p) (rootNodeId p) = Some 0"
    unfolding F by simp
  with g rn(2) show ?thesis by blast
qed

lemma dfs_tree:
  assumes ok: "store_ok (nodes p)" and inv: "tree_invariant p" and d: "length (nodes p) \<le> depth"
  shows "\<exists>vs. dfs depth (nodes p) (rootNodeId p) = Some vs \<and> distinct vs \<and>
               set vs = set (values_of (nodes p))"
proof -
  let ?ns = "nodes p"
  from inv have rt: "map node_id (filter (\<lambda>n. parentId n = None) (values_of ?ns)) = [rootNodeId p]"
    and dp: "all_depths ?ns"
    by (simp_all add: tree_invariant_def)
  from tree_root [OF ok inv] have r0: "depth_of (length ?ns) ?ns (rootNodeId p) = Some 0" by blast
  from dfs_terminates [OF ok dp r0] d obtain vs where vs: "dfs depth ?ns (rootNodeId p) = Some vs"
    by auto
  have "distinct vs" by (rule dfs_distinct [OF ok dp vs])
  moreover have "set vs \<subseteq> set (values_of ?ns)"
    using dfs_members [OF ok vs] by blast
  moreover have "set (values_of ?ns) \<subseteq> set vs"
  proof
    fix v assume v: "v \<in> set (values_of ?ns)"
    with dp obtain x where "depth_of (length ?ns) ?ns (node_id v) = Some x"
      by (auto simp: all_depths_def list_all_iff)
    from dfs_covers [OF ok rt vs this v] show "v \<in> set vs" .
  qed
  ultimately show ?thesis using vs by blast
qed

lemma length_filter_distinct:
  assumes "distinct xs" and "distinct ys" and "set xs = set ys"
  shows "length (filter P xs) = length (filter P ys)"
  using assms by (simp add: distinct_length_filter)

lemma catalog_size_entries:
  "catalog_size (systemTools @ map tool_entry l) = 2 + length l"
  by (induction l) (auto simp: catalog_size_def systemTools_def tool_entry_def)

lemma convert_entries:
  "map fd_name (convertToolsToOpenAI (systemTools @ map tool_entry l)) =
     [''manage_node'', ''manage_simulation''] @
     map (sanitizeName \<circ> name) (filter (\<lambda>n. toolType n \<noteq> Some ''googleSearch'') l)"
  by (induction l) (auto simp: convertToolsToOpenAI_def systemTools_def tool_entry_def)

lemma concat_block_of:
  "concat (map block_of (filter P vs)) =
   concat (map block_of (filter (\<lambda>n. P n \<and> node_type n \<in> {Some AGENT, Some ROUTER, Some TOOL, Some MEMORY}) vs))"
  by (induction vs) (auto simp: block_of_def)

lemma collectContext_tree:
  assumes ok: "store_ok (nodes p)" and inv: "tree_invariant p" and d: "length (nodes p) \<le> depth"
  shows "\<exists>vs. distinct vs \<and> set vs = set (values_of (nodes p)) \<and>
           dfs depth (nodes p) (rootNodeId p) = Some vs \<and>
           collectContext depth p a =
             Some (''Current Active System Stack:'' @ newline @
                     concat (map block_of (filter (\<lambda>n. shouldInclude p a (node_id n)) vs)),
                   systemTools @
                     map tool_entry
                       (filter (\<lambda>n. shouldInclude p a (node_id n) \<and> node_type n = Some TOOL) vs))"
proof -
  from dfs_tree [OF ok inv d] obtain vs where
    vs: "dfs depth (nodes p) (rootNodeId p) = Some vs" "distinct vs"
        "set vs = set (values_of (nodes p))" by blast
  from tree_root [OF ok inv] have r: "get_node (nodes p) (rootNodeId p) \<noteq> None" by auto
  from collectContext_dfs [OF ok r, of depth a] vs show ?thesis by auto
qed

text \<open>
  Claim C3, as amended. For a store that satisfies the structural invariant and has no more
  nodes than the call stack has room for, \<open>collectContext\<close> returns, having visited every
  node exactly once (\<open>vs\<close>, the nodes in traversal order). The catalog is the one built-in
  entry, which holds the two administrative declarations, followed by one entry for every
  Tool node of the active set, search tools included, each with an entry of its own: its
  length is one more than the number of active Tool nodes, and it offers two more
  capabilities than there are active Tool nodes. The instruction text is the header
  followed by exactly one block for every node of the active set whose type is Agent,
  Router, Tool or Memory; a System node, such as the root, adds none.
\<close>

theorem C3_catalog_and_blocks:
  assumes "store_ok (nodes p)" and "tree_invariant p" and "length (nodes p) \<le> depth"
  shows "\<exists>instr tools vs.
           collectContext depth p a = Some (instr, tools) \<and>
           distinct vs \<and> set vs = set (values_of (nodes p)) \<and>
           dfs depth (nodes p) (rootNodeId p) = Some vs \<and>
           tools = systemTools @
             map tool_entry (filter (\<lambda>n. shouldInclude p a (node_id n) \<and> node_type n = Some TOOL) vs) \<and>
           length tools = 1 + length (active_tools p a) \<and>
           catalog_size tools = 2 + length (active_tools p a) \<and>
           instr = ''Current Active System Stack:'' @ newline @
             concat (map block_of
               (filter (\<lambda>n. shouldInclude p a (node_id n) \<and>
                          node_type n \<in> {Some AGENT, Some ROUTER, Some TOOL, Some MEMORY}) vs))"
proof -
  from collectContext_tree [OF assms, of a] obtain vs where
    vs: "distinct vs" "set vs = set (values_of (nodes p))"
        "dfs depth (nodes p) (rootNodeId p) = Some vs"
        "collectContext depth p a =
             Some (''Current Active System Stack:'' @ newline @
                     concat (map block_of (filter (\<lambda>n. shouldInclude p a (node_id n)) vs)),
                   systemTools @
                     map tool_entry
                       (filter (\<lambda>n. shouldInclude p a (node_id n) \<and> node_type n = Some TOOL) vs))"
    by blast
  let ?act = "filter (\<lambda>n. shouldInclude p a (node_id n) \<and> node_type n = Some TOOL) vs"
  have n: "length ?act = length (active_tools p a)"
    unfolding active_tools_def
    by (rule length_filter_distinct [OF vs(1) values_distinct [OF assms(1)] vs(2)])
  have l: "length (systemTools @ map tool_entry ?act) = 1 + length (active_tools p a)"
    using n by (simp add: systemTools_def)
  have c: "catalog_size (systemTools @ map tool_entry ?act) = 2 + length (active_tools p a)"
    using n by (simp add: catalog_size_entries)
  have b: "concat (map block_of (filter (\<lambda>n. shouldInclude p a (node_id n)) vs)) =
     concat (map block_of
               (filter (\<lambda>n. shouldInclude p a (node_id n) \<and>
                          node_type n \<in> {Some AGENT, Some ROUTER, Some TOOL, Some MEMORY}) vs))"
    by (rule concat_block_of)
  from vs l c b show ?thesis by (intro exI conjI) (assumption | simp only: append_assoc)+
qed


lemma sanitizeName_pointwise:
  "length (sanitizeName nm) = length nm \<and>
   (\<forall>i<length nm. sanitizeName nm ! i = (if isWordChar (nm ! i) then nm ! i else CHR ''_''))"
  by (simp add: sanitizeName_def)

text \<open>
  Claim C4, as amended. Under the same conditions, every Tool node of the active set that
  is not a search tool has a catalog entry with one declaration, whose only parameter is
  \<open>payload\<close> and whose name is the node's display name with every character outside
  \<open>[a-zA-Z0-9_]\<close> replaced by an underscore, so of the same length. The declared names are
  the two administrative names followed by the sanitized names of these nodes in traversal
  order, one per node: equal names are all kept.
\<close>

theorem C4_entry_named_by_sanitized_name:
  assumes "store_ok (nodes p)" and "tree_invariant p" and "length (nodes p) \<le> depth"
  shows "\<exists>instr tools vs.
           collectContext depth p a = Some (instr, tools) \<and>
           distinct vs \<and> set vs = set (values_of (nodes p)) \<and>
           dfs depth (nodes p) (rootNodeId p) = Some vs \<and>
           map fd_name (convertToolsToOpenAI tools) =
             [''manage_node'', ''manage_simulation''] @
             map (sanitizeName \<circ> name)
               (filter (\<lambda>n. toolType n \<noteq> Some ''googleSearch'')
                  (filter (\<lambda>n. shouldInclude p a (node_id n) \<and> node_type n = Some TOOL) vs)) \<and>
           length (convertToolsToOpenAI tools) =
             2 + length (filter (\<lambda>n. toolType n \<noteq> Some ''googleSearch'') (active_tools p a)) \<and>
           (\<forall>n\<in>set (active_tools p a). toolType n \<noteq> Some ''googleSearch'' \<longrightarrow>
              (\<exists>d. FunctionDeclarations [d] \<in> set tools \<and> fd_name d = sanitizeName (name n) \<and>
                    fd_parameters d = [''payload''] \<and>
                    length (fd_name d) = length (name n) \<and>
                    (\<forall>i<length (name n).
                       fd_name d ! i = (if isWordChar (name n ! i) then name n ! i else CHR ''_''))))"
proof -
  from collectContext_tree [OF assms, of a] obtain vs where
    vs: "distinct vs" "set vs = set (values_of (nodes p))"
        "dfs depth (nodes p) (rootNodeId p) = Some vs"
        "collectContext depth p a =
             Some (''Current Active System Stack:'' @ newline @
                     concat (map block_of (filter (\<lambda>n. shouldInclude p a (node_id n)) vs)),
                   systemTools @
                     map tool_entry
                       (filter (\<lambda>n. shouldInclude p a (node_id n) \<and> node_type n = Some TOOL) vs))"
    by blast
  let ?act = "filter (\<lambda>n. shouldInclude p a (node_id n) \<and> node_type n = Some TOOL) vs"
  let ?tools = "systemTools @ map tool_entry ?act"
  have names: "map fd_name (convertToolsToOpenAI ?tools) =
      [''manage_node'', ''manage_simulation''] @
      map (sanitizeName \<circ> name) (filter (\<lambda>n. toolType n \<noteq> Some ''googleSearch'') ?act)"
    by (rule convert_entries)
  have n: "length (filter (\<lambda>n. toolType n \<noteq> Some ''googleSearch'') ?act) =
      length (filter (\<lambda>n. toolType n \<noteq> Some ''googleSearch'') (active_tools p a))"
    unfolding active_tools_def filter_filter
    by (rule length_filter_distinct [OF vs(1) values_distinct [OF assms(1)] vs(2)])
  have len: "length (convertToolsToOpenAI ?tools) =
      2 + length (filter (\<lambda>n. toolType n \<noteq> Some ''googleSearch'') (active_tools p a))"
  proof -
    have "length (convertToolsToOpenAI ?tools) = length (map fd_name (convertToolsToOpenAI ?tools))"
      by simp
    also have "\<dots> = 2 + length (filter (\<lambda>n. toolType n \<noteq> Some ''googleSearch'') ?act)"
      unfolding names by simp
    finally show ?thesis using n by simp
  qed
  have each: "\<exists>d. FunctionDeclarations [d] \<in> set ?tools \<and> fd_name d = sanitizeName (name n) \<and>
                    fd_parameters d = [''payload''] \<and>
                    length (fd_name d) = length (name n) \<and>
                    (\<forall>i<length (name n).
                       fd_name d ! i = (if isWordChar (name n ! i) then name n ! i else CHR ''_''))"
    if "n \<in> set (active_tools p a)" "toolType n \<noteq> Some ''googleSearch''" for n
  proof -
    from that(1) vs(2) have "n \<in> set ?act" by (simp add: active_tools_def)
    then have "tool_entry n \<in> set ?tools" by simp
    with that(2) sanitizeName_pointwise [of "name n"] show ?thesis
      by (auto simp: tool_entry_def simp del: set_append)
  qed
  from vs names len each show ?thesis by (intro exI conjI) (assumption | blast)+
qed

text \<open>
  Claim C3, counterexample. With three active search tools the catalog has four entries
  and offers five capabilities, where the claim counts three; and for the example store
  with all three nodes active the instruction text has the blocks of the agent and of the
  memory, none for the root, whose type is \<open>SYSTEM\<close>.
\<close>

theorem C3_counterexample:
  "map_option (length \<circ> snd) (collectContext 4 search_project None) = Some 4 \<and>
   map_option (catalog_size \<circ> snd) (collectContext 4 search_project None) = Some 5 \<and>
   spec_catalog_size search_project None = 3 \<and>
   store_ok (nodes search_project) \<and> tree_invariant search_project \<and>
   map_option fst (collectContext 3 example_project (Some [''root'', ''agent_core'', ''mem_readme''])) =
     Some (''Current Active System Stack:'' @ newline @
           agent_block (mkNode ''agent_core'' AGENT ''Orchestrator'' (Some ''root'')) @
           memory_block (mkNode ''mem_readme'' MEMORY ''ARCHITECTURE.md'' (Some ''root'')))"
  by code_simp

text \<open>
  Claim C4, counterexample. The tool \<open>Get Time\<close> is declared as \<open>Get_Time\<close>: the space is
  replaced, not removed.
\<close>

theorem C4_counterexample:
  "map_option (map fd_name \<circ> convertToolsToOpenAI \<circ> snd) (collectContext 4 tool_project None) =
     Some [''manage_node'', ''manage_simulation'', ''Get_Time''] \<and>
   name time_tool = ''Get Time'' \<and>
   spec_stripped_name (name time_tool) = ''GetTime''"
  by code_simp

text \<open>Claim C3, witness: the store with one tool, the tool alone in the active set.\<close>

theorem C3_catalog_and_blocks_witness:
  "store_ok (nodes tool_project) \<and> tree_invariant tool_project \<and>
   length (nodes tool_project) \<le> 4 \<and>
   (\<exists>instr tools. collectContext 4 tool_project (Some [''tool_time'']) = Some (instr, tools) \<and>
      length tools = 2 \<and> catalog_size tools = 3 \<and>
      instr = ''Current Active System Stack:'' @ newline @ tool_block time_tool)"
proof -
  have h: "store_ok (nodes tool_project)" "tree_invariant tool_project"
    "length (nodes tool_project) \<le> 4"
    by code_simp+
  have a: "length (active_tools tool_project (Some [''tool_time''])) = 1"
    by code_simp
  have i: "map_option fst (collectContext 4 tool_project (Some [''tool_time''])) =
     Some (''Current Active System Stack:'' @ newline @ tool_block time_tool)"
    by code_simp
  from C3_catalog_and_blocks [OF h, of "Some [''tool_time'']"] a i h show ?thesis
    by auto
qed

text \<open>
  Claim C4, witness: the tools \<open>Get Time\<close> and \<open>Get-Time\<close> are both declared as \<open>Get_Time\<close>.
\<close>

theorem C4_entry_named_by_sanitized_name_witness:
  "store_ok (nodes collision_project) \<and> tree_invariant collision_project \<and>
   length (nodes collision_project) \<le> 3 \<and>
   (\<exists>instr tools. collectContext 3 collision_project None = Some (instr, tools) \<and>
      map fd_name (convertToolsToOpenAI tools) =
        [''manage_node'', ''manage_simulation'', ''Get_Time'', ''Get_Time''])"
proof -
  have h: "store_ok (nodes collision_project)" "tree_invariant collision_project"
    "length (nodes collision_project) \<le> 3"
    by code_simp+
  have v: "dfs 3 (nodes collision_project) (rootNodeId collision_project) =
      Some (values_of (nodes collision_project))"
    by code_simp
  have n: "map (sanitizeName \<circ> name)
               (filter (\<lambda>n. toolType n \<noteq> Some ''googleSearch'')
                  (filter (\<lambda>n. shouldInclude collision_project None (node_id n) \<and> node_type n = Some TOOL)
                     (values_of (nodes collision_project)))) = [''Get_Time'', ''Get_Time'']"
    by code_simp
  from C4_entry_named_by_sanitized_name [OF h, of None] v n h show ?thesis
    by auto
qed

subsection \<open>Node creation keeps the invariant\<close>

lemma set_node_fresh:
  "k \<notin> fst ` set ns \<Longrightarrow> \<exists>xs ys. ns = xs @ ys \<and> set_node ns k v = xs @ (k, v) # ys"
proof (induction ns)
  case Nil
  show ?case by simp
next
  case (Cons e ns)
  obtain k' v' where e: "e = (k', v')" by (cases e)
  from Cons.prems e have ne: "k' \<noteq> k" and fr: "k \<notin> fst ` set ns" by auto
  show ?case
  proof (cases "listedBefore k k'")
    case True
    with ne e have "e # ns = [] @ (e # ns) \<and> set_node (e # ns) k v = [] @ (k, v) # (e # ns)"
      by simp
    then show ?thesis by blast
  next
    case False
    from Cons.IH [OF fr] obtain xs ys where
      s: "ns = xs @ ys" "set_node ns k v = xs @ (k, v) # ys" by blast
    with ne e False have "e # ns = (e # xs) @ ys \<and> set_node (e # ns) k v = (e # xs) @ (k, v) # ys"
      by simp
    then show ?thesis by blast
  qed
qed

lemma depth_of_set_node_fresh:
  "get_node ns k = None \<Longrightarrow> depth_of f ns j = Some x \<Longrightarrow> depth_of f (set_node ns k v) j = Some x"
proof (induction f arbitrary: j x)
  case 0
  then show ?case by simp
next
  case (Suc f)
  from Suc.prems(2) obtain n where n: "get_node ns j = Some n"
    by (auto split: option.splits)
  with Suc.prems(1) have jk: "j \<noteq> k" by auto
  show ?case
  proof (cases "parentId n")
    case None
    with n jk show ?thesis using Suc.prems(2) by (simp add: get_node_set_node)
  next
    case (Some pid)
    with n Suc.prems(2) obtain y where y: "depth_of f ns pid = Some y" "x = Suc y" by auto
    from Suc.IH [OF Suc.prems(1) y(1)] n jk Some y(2) show ?thesis
      by (simp add: get_node_set_node)
  qed
qed

text \<open>
  An identifier made of digits is an array index when it has no leading zero and is below
  \<open>2^32 - 1\<close>, and the store then lists it before every other key.
\<close>

lemma isArrayIndex_digits: "isArrayIndex ''123456789'' \<and> \<not> isArrayIndex ''root'' \<and>
   \<not> isArrayIndex ''012345678'' \<and> \<not> isArrayIndex ''4294967295'' \<and> isArrayIndex ''4294967294''"
  by (simp add: isArrayIndex_def indexValue_def isDigit_def)

lemma digits_key_listed_first:
  "map fst (set_node (nodes example_project) ''123456789'' v) =
     [''123456789'', ''root'', ''agent_core'', ''mem_readme''] \<and>
   map fst (set_node (set_node (nodes example_project) ''123456789'' v) ''7'' v) =
     [''7'', ''123456789'', ''root'', ''agent_core'', ''mem_readme''] \<and>
   map fst (set_node (set_node (nodes example_project) ''123456789'' v) ''n'' v) =
     [''123456789'', ''root'', ''agent_core'', ''mem_readme'', ''n'']"
  by (simp add: example_project_def listedBefore_def isArrayIndex_def indexValue_def isDigit_def)

text \<open>
  The \<open>create\<close> branch of \<open>manage_node\<close>, which checks that the parent exists, keeps the
  invariant whenever the identifier it draws is not yet in the store and the parent it is
  given is not a key the store only inherits (and changes nothing when it throws).
\<close>

lemma create_preserves_tree_invariant:
  assumes ok: "store_ok (nodes (nextProject t))" and inv: "tree_invariant (nextProject t)"
    and fresh: "uuid w (drawn t) \<notin> fst ` set (nodes (nextProject t))"
    and own: "\<And>parent. a_parentId args = Some parent \<Longrightarrow> parent \<in> set prototype_keys \<Longrightarrow>
                get_node (nodes (nextProject t)) parent \<noteq> None"
  shows "store_ok (nodes (nextProject (fst (manage_node_create w args t)))) \<and>
         tree_invariant (nextProject (fst (manage_node_create w args t)))"
proof -
  let ?p = "nextProject t"
  let ?ns = "nodes ?p"
  let ?newId = "uuid w (drawn t)"
  let ?parent = "if truthy (a_parentId args) then the (a_parentId args) else rootNodeId ?p"
  have root: "get_node ?ns (rootNodeId ?p) \<noteq> None"
  proof -
    from inv have "rootNodeId ?p \<in> set (map node_id (filter (\<lambda>n. parentId n = None) (values_of ?ns)))"
      by (simp add: tree_invariant_def)
    then obtain rn where rn: "rn \<in> set (values_of ?ns)" "node_id rn = rootNodeId ?p" by auto
    from get_node_value [OF ok rn(1)] rn(2) show ?thesis by simp
  qed
  have inh: "get_node ?ns ?parent = None \<Longrightarrow> \<not> has_property ?ns ?parent"
  proof -
    assume none: "get_node ?ns ?parent = None"
    show "\<not> has_property ?ns ?parent"
    proof (cases "truthy (a_parentId args)")
      case True
      then obtain parent where p: "a_parentId args = Some parent" "parent \<noteq> []"
        by (auto simp: truthy_def split: option.splits)
      with True none own [OF p(1)] show ?thesis
        by (auto simp: has_property_def)
    next
      case False
      with none root show ?thesis by simp
    qed
  qed
  show ?thesis
  proof (cases "get_node ?ns ?parent")
    case None
    with inh ok inv show ?thesis by (simp add: manage_node_create_def Let_def)
  next
    case (Some pn)
    then have hp: "has_property ?ns ?parent" by (simp add: has_property_def)
    obtain newNode where nn: "nextProject (fst (manage_node_create w args t)) =
        ?p\<lparr>nodes := set_node ?ns ?newId newNode\<rparr>" "node_id newNode = ?newId"
        "parentId newNode = Some ?parent"
      using hp by (simp add: manage_node_create_def Let_def)
    let ?ns' = "set_node ?ns ?newId newNode"
    from set_node_fresh [OF fresh, of newNode] obtain xs ys where
      sp: "?ns = xs @ ys" "?ns' = xs @ (?newId, newNode) # ys" by blast
    have fresh': "?newId \<notin> fst ` set xs" "?newId \<notin> fst ` set ys"
      using fresh unfolding sp(1) by auto
    have len: "length ?ns' = Suc (length ?ns)"
      unfolding sp(2) by (subst sp(1)) simp
    have vals: "set (values_of ?ns') = insert newNode (set (values_of ?ns))"
      unfolding sp(2) by (subst sp(1)) (auto simp: values_of_def)
    have ok': "store_ok ?ns'"
      using ok fresh' nn(2) unfolding sp(2) by (subst (asm) sp(1)) (auto simp: store_ok_def)
    have roots: "map node_id (filter (\<lambda>n. parentId n = None) (values_of ?ns')) = [rootNodeId ?p]"
    proof -
      have "map node_id (filter (\<lambda>n. parentId n = None) (values_of ?ns')) =
            map node_id (filter (\<lambda>n. parentId n = None) (values_of (xs @ ys)))"
        unfolding sp(2) using nn(3) by (simp add: values_of_def)
      also have "\<dots> = [rootNodeId ?p]"
        using inv unfolding sp(1) [symmetric] by (simp add: tree_invariant_def)
      finally show ?thesis .
    qed
    have gn: "get_node ?ns ?newId = None"
      using fresh by (simp add: get_node_def map_of_eq_None_iff)
    have old: "depth_of (length ?ns') ?ns' (node_id n) \<noteq> None" if "n \<in> set (values_of ?ns)" for n
    proof -
      from inv that obtain x where "depth_of (length ?ns) ?ns (node_id n) = Some x"
        by (auto simp: tree_invariant_def all_depths_def list_all_iff)
      from depth_of_mono [OF depth_of_set_node_fresh [OF gn this, of newNode], of "length ?ns'"] len
      show ?thesis by simp
    qed
    have pv: "pn \<in> set (values_of ?ns)" by (rule value_of_get_node [OF Some])
    have pid: "node_id pn = ?parent" by (rule get_node_id [OF ok Some])
    from inv pv obtain x where x: "depth_of (length ?ns) ?ns ?parent = Some x"
      unfolding pid [symmetric] by (auto simp: tree_invariant_def all_depths_def list_all_iff)
    have g: "get_node ?ns' ?newId = Some newNode"
      by (simp add: get_node_set_node)
    have new: "depth_of (length ?ns') ?ns' ?newId \<noteq> None"
      using depth_of_set_node_fresh [OF gn x, of newNode] g nn(3) len by simp
    have "all_depths ?ns'"
      unfolding all_depths_def list_all_iff using old new nn(2) vals by auto
    with roots have "tree_invariant (?p\<lparr>nodes := ?ns'\<rparr>)" by (simp add: tree_invariant_def)
    with ok' nn(1) show ?thesis by simp
  qed
qed

end
